theory Spec2Isabelle
  imports Main "HOL-Library.Sublist" "HOL-Library.AList"
begin

section \<open>The mission controller of helpers/MissionController.py\<close>

text \<open>
  The controller drives two remote services (a batch service holding the mission's pool
  and a blob service holding the mission's container) and the local file system. The
  model threads one record, \<open>world\<close>, through every method: it holds the controller's
  own attributes, the state of the two services as far as the mission's own pool and
  container go, the local files, the clock, and the list of requests issued so far.
  A method returns \<open>Ok w\<close> when the Python method returns and \<open>Raise e w\<close> when it
  raises \<open>e\<close>; in both cases \<open>w\<close> is the world left behind, since an exception undoes
  nothing. Logging calls have no effect on any of this and are left out. The methods
  keep their names without the leading underscore: \<open>create_pool\<close> is
  \<open>_create_pool\<close>, and so on.
\<close>

subsection \<open>Exceptions\<close>

datatype error =
    AssertionError
  | RuntimeError string
  | ValueError string
  | FileNotFoundError string
  | UnpicklingError
  | AzureConflictHttpError string
  | AzureMissingResourceHttpError string
  | AzureException string
  | BatchErrorException string

datatype 'a outcome = Ok 'a | Raise error 'a

subsection \<open>os.path on POSIX\<close>

text \<open>Python's \<open>s.split('/')\<close> and \<open>'/'.join(xs)\<close>.\<close>

fun split_sep :: "string \<Rightarrow> string list" where
  "split_sep [] = [[]]"
| "split_sep (c # s) =
     (if c = CHR ''/'' then [] # split_sep s
      else (case split_sep s of [] \<Rightarrow> [[c]] | h # t \<Rightarrow> (c # h) # t))"

fun join_sep :: "string list \<Rightarrow> string" where
  "join_sep [] = []"
| "join_sep [x] = x"
| "join_sep (x # y # zs) = x @ CHR ''/'' # join_sep (y # zs)"

definition isabs :: "string \<Rightarrow> bool" where
  "isabs s = prefix ''/'' s"

text \<open>\<open>os.path.join(a, b)\<close>, and \<open>os.path.join(a, *p)\<close> as its left fold.\<close>

definition path_join :: "string \<Rightarrow> string \<Rightarrow> string" where
  "path_join a b =
     (if prefix ''/'' b then b
      else if a = [] \<or> last a = CHR ''/'' then a @ b
      else a @ CHR ''/'' # b)"

definition path_join_all :: "string \<Rightarrow> string list \<Rightarrow> string" where
  "path_join_all a p = foldl path_join a p"

text \<open>
  The loop body of \<open>os.path.normpath\<close>: \<open>init\<close> says whether the path starts with a
  slash, \<open>new_comps\<close> is the list built so far.
\<close>

definition norm_step :: "bool \<Rightarrow> string list \<Rightarrow> string \<Rightarrow> string list" where
  "norm_step init new_comps cmp =
     (if cmp = [] \<or> cmp = ''.'' then new_comps
      else if cmp \<noteq> ''..'' \<or> (\<not> init \<and> new_comps = [])
                \<or> (new_comps \<noteq> [] \<and> last new_comps = ''..'')
        then new_comps @ [cmp]
      else if new_comps \<noteq> [] then butlast new_comps
      else new_comps)"

definition normpath :: "string \<Rightarrow> string" where
  "normpath path =
     (if path = [] then ''.''
      else
        let initial_slashes =
              (if prefix ''/'' path
               then (if prefix ''//'' path \<and> \<not> prefix ''///'' path then 2 else 1)
               else (0::nat));
            comps = foldl (norm_step (initial_slashes \<noteq> 0)) [] (split_sep path);
            p = replicate initial_slashes CHR ''/'' @ join_sep comps
        in if p = [] then ''.'' else p)"

text \<open>\<open>os.path.abspath\<close>, with the current directory as a parameter.\<close>

definition abspath :: "string \<Rightarrow> string \<Rightarrow> string" where
  "abspath cwd path = normpath (if isabs path then path else path_join cwd path)"

text \<open>
  \<open>os.path.basename\<close> is \<open>p[i:]\<close> and the head of \<open>os.path.dirname\<close> is \<open>p[:i]\<close>,
  for \<open>i = p.rfind('/') + 1\<close>: the characters after, and up to, the last slash.
\<close>

definition basename :: "string \<Rightarrow> string" where
  "basename p = rev (takeWhile (\<lambda>c. c \<noteq> CHR ''/'') (rev p))"

definition rstrip_sep :: "string \<Rightarrow> string" where
  "rstrip_sep s = rev (dropWhile (\<lambda>c. c = CHR ''/'') (rev s))"

definition dirname :: "string \<Rightarrow> string" where
  "dirname p =
     (let head = rev (dropWhile (\<lambda>c. c \<noteq> CHR ''/'') (rev p))
      in if head \<noteq> [] \<and> head \<noteq> replicate (length head) CHR ''/''
         then rstrip_sep head else head)"

text \<open>
  \<open>os.path.commonprefix\<close> of two component lists, and \<open>os.path.relpath\<close>, which raises
  \<open>ValueError\<close> on an empty path.
\<close>

fun commonprefix :: "string list \<Rightarrow> string list \<Rightarrow> string list" where
  "commonprefix (x # xs) (y # ys) = (if x = y then x # commonprefix xs ys else [])"
| "commonprefix _ _ = []"

definition relpath :: "string \<Rightarrow> string \<Rightarrow> string \<Rightarrow> error + string" where
  "relpath cwd path start =
     (if path = [] then Inl (ValueError ''no path specified'')
      else
        let start_list = filter (\<lambda>x. x \<noteq> []) (split_sep (abspath cwd start));
            path_list = filter (\<lambda>x. x \<noteq> []) (split_sep (abspath cwd path));
            i = length (commonprefix start_list path_list);
            rel_list = replicate (length start_list - i) ''..'' @ drop i path_list
        in (case rel_list of [] \<Rightarrow> Inr ''.''
            | r # rs \<Rightarrow> Inr (path_join_all r rs)))"

text \<open>
  \<open>str.replace(old, new)\<close> for a non-empty \<open>old\<close>: every occurrence, leftmost first,
  without overlap.
\<close>

function str_replace :: "string \<Rightarrow> string \<Rightarrow> string \<Rightarrow> string" where
  "str_replace old new s =
     (if s = [] \<or> old = [] then s
      else if prefix old s then new @ str_replace old new (drop (length old) s)
      else hd s # str_replace old new (tl s))"
  by pat_completeness auto
termination
  by (relation "measure (\<lambda>(old, new, s). length s)") auto

subsection \<open>The mission, the services and the local machine\<close>

text \<open>The attributes of \<open>MissionInfo\<close> that the controller reads.\<close>

record mission_info =
  pool_name :: string
  job_name :: string
  container_name :: string
  vm_type :: string
  n_nodes :: int

text \<open>\<open>azure.batch.models.AllocationState\<close> and what \<open>pool.get\<close> returns of a pool.\<close>

datatype allocation_state = steady | resizing | stopping

record pool_info =
  target_dedicated_nodes :: int
  allocation_state :: allocation_state

text \<open>The parameter objects that \<open>_create_pool\<close> builds.\<close>

record image_reference =
  publisher :: string
  offer :: string
  sku :: string
  version :: string

record pool_add_parameter =
  pool_id :: string
  image :: image_reference
  container_image_names :: "string list"
  node_agent_sku_id :: string
  vm_size :: string
  add_target_dedicated_nodes :: int

text \<open>
  The mission's container is absent, present, or being deleted; \<open>BeingDeleted k\<close> refuses
  the next \<open>k\<close> creation requests with the code \<open>ContainerBeingDeleted\<close>, after
  which the name is free again.
\<close>

datatype container_status = Absent | Present | BeingDeleted nat

text \<open>Every call on a service client, and every sleep, in the order it is made.\<close>

datatype event =
    PoolExists string
  | PoolGet string
  | PoolStopResize string
  | PoolResize string int string
  | PoolAdd pool_add_parameter
  | Sleep nat
  | CreateContainer string bool
  | BlobExists string string
  | GetBlobToPath string string string
  | CreateBlobFromPath string string string
  | ListBlobs string string nat
  | DeleteBlob string string
  | GenerateSAS string nat nat
  | MakeContainerUrl string string

text \<open>
  The first four fields are the attributes of the controller. \<open>pool_target\<close> is the
  target node count of the mission's pool when the pool exists, and \<open>alloc_at t\<close> the
  allocation state the batch service reports at time \<open>t\<close> (in seconds): the service
  decides it, not the controller. \<open>blobs\<close> maps the blob names of the container to
  their contents, in listing order, and \<open>put_error\<close> gives the error with which the
  blob service refuses to store a blob of a given name, if it does. \<open>files\<close> maps the
  path of each regular file of the local machine to its content; directories are
  implicit in the paths, so \<open>os.path.isdir\<close> and \<open>os.makedirs\<close> leave it alone.
  \<open>pickle_dumps\<close> and \<open>pickle_loads\<close> stand for the pickle module, \<open>sas_signature\<close>
  and \<open>container_url_of\<close> for the two pure functions of the blob client.
\<close>

record world =
  info :: mission_info
  container_token :: "string option"
  container_url :: "string option"
  uploaded_dirs :: "string \<rightharpoonup> string"
  pool_target :: "int option"
  alloc_at :: "nat \<Rightarrow> allocation_state"
  container :: container_status
  blobs :: "(string \<times> string) list"
  put_error :: "string \<Rightarrow> error option"
  sas_signature :: "string \<Rightarrow> nat \<Rightarrow> nat \<Rightarrow> string"
  container_url_of :: "string \<Rightarrow> string \<Rightarrow> string"
  cwd :: string
  files :: "(string \<times> string) list"
  pickle_dumps :: "(string \<rightharpoonup> string) \<Rightarrow> string"
  pickle_loads :: "string \<Rightarrow> error + (string \<rightharpoonup> string)"
  clock :: nat
  trace :: "event list"

definition emit :: "event \<Rightarrow> world \<Rightarrow> world" where
  "emit e w = w\<lparr>trace := trace w @ [e]\<rparr>"

definition time_sleep :: "nat \<Rightarrow> world \<Rightarrow> world" where
  "time_sleep d w = emit (Sleep d) (w\<lparr>clock := clock w + d\<rparr>)"

subsection \<open>The batch client\<close>

definition pool_exists :: "string \<Rightarrow> world \<Rightarrow> bool \<times> world" where
  "pool_exists pid w = (pool_target w \<noteq> None, emit (PoolExists pid) w)"

definition pool_get :: "string \<Rightarrow> world \<Rightarrow> (error + pool_info) \<times> world" where
  "pool_get pid w =
     (case pool_target w of
        None \<Rightarrow> (Inl (BatchErrorException ''PoolNotFound''), emit (PoolGet pid) w)
      | Some n \<Rightarrow>
          (Inr \<lparr>target_dedicated_nodes = n, allocation_state = alloc_at w (clock w)\<rparr>,
           emit (PoolGet pid) w))"

definition pool_stop_resize :: "string \<Rightarrow> world \<Rightarrow> world outcome" where
  "pool_stop_resize pid w =
     (if pool_target w = None
      then Raise (BatchErrorException ''PoolNotFound'') (emit (PoolStopResize pid) w)
      else Ok (emit (PoolStopResize pid) w))"

text \<open>The service accepts a resize of a pool only in the steady state.\<close>

definition pool_resize :: "string \<Rightarrow> int \<Rightarrow> string \<Rightarrow> world \<Rightarrow> world outcome" where
  "pool_resize pid n opt w =
     (let w' = emit (PoolResize pid n opt) w in
      if pool_target w = None then Raise (BatchErrorException ''PoolNotFound'') w'
      else if alloc_at w (clock w) \<noteq> steady
        then Raise (BatchErrorException ''PoolResizeInProgress'') w'
      else Ok (w'\<lparr>pool_target := Some n\<rparr>))"

definition pool_add :: "pool_add_parameter \<Rightarrow> world \<Rightarrow> world outcome" where
  "pool_add conf w =
     (let w' = emit (PoolAdd conf) w in
      if pool_target w \<noteq> None then Raise (BatchErrorException ''PoolExists'') w'
      else Ok (w'\<lparr>pool_target := Some (add_target_dedicated_nodes conf)\<rparr>))"

subsection \<open>\<open>_create_pool\<close>\<close>

text \<open>
  The loop of lines 100 to 103: it has no bound, so it is a partial function, and
  \<open>None\<close> says that it never ends.
\<close>

partial_function (option) wait_steady :: "pool_info \<Rightarrow> world \<Rightarrow> world outcome option" where
  "wait_steady pool_info w =
     (if allocation_state pool_info \<noteq> steady then
        (case pool_get (pool_name (info w)) (time_sleep 2 w) of
           (Inl e, w') \<Rightarrow> Some (Raise e w')
         | (Inr pool_info', w') \<Rightarrow> wait_steady pool_info' w')
      else Some (Ok w))"

declare wait_steady.simps [code]

definition pool_conf :: "mission_info \<Rightarrow> pool_add_parameter" where
  "pool_conf i =
     \<lparr>pool_id = pool_name i,
      image = \<lparr>publisher = ''microsoft-azure-batch'', offer = ''ubuntu-server-container'',
               sku = ''16-04-lts'', version = ''latest''\<rparr>,
      container_image_names = [''barbagroup/landspill:applications''],
      node_agent_sku_id = ''batch.node.ubuntu 16.04'',
      vm_size = vm_type i,
      add_target_dedicated_nodes = n_nodes i\<rparr>"

definition create_pool :: "world \<Rightarrow> world outcome option" where
  "create_pool w =
     (case pool_exists (pool_name (info w)) w of (ex, w1) \<Rightarrow>
        if ex then
          (case pool_get (pool_name (info w1)) w1 of
             (Inl e, w2) \<Rightarrow> Some (Raise e w2)
           | (Inr pool_info, w2) \<Rightarrow>
               if target_dedicated_nodes pool_info \<noteq> n_nodes (info w2) then
                 (case (if allocation_state pool_info = resizing then
                          (case pool_stop_resize (pool_name (info w2)) w2 of
                             Raise e w3 \<Rightarrow> Some (Raise e w3)
                           | Ok w3 \<Rightarrow> wait_steady pool_info w3)
                        else Some (Ok w2)) of
                    None \<Rightarrow> None
                  | Some (Raise e w4) \<Rightarrow> Some (Raise e w4)
                  | Some (Ok w4) \<Rightarrow>
                      Some (pool_resize (pool_name (info w4)) (n_nodes (info w4))
                              ''requeue'' w4))
               else Some (Ok w2))
        else Some (pool_add (pool_conf (info w1)) w1))"

subsection \<open>The blob client\<close>

text \<open>
  \<open>create_container\<close> returns whether it created the container. The service answers a
  request for a name in use with a conflict; the client raises it when \<open>fail_on_exist\<close>
  is set and returns \<open>False\<close> otherwise, whatever the code of the conflict.
\<close>

definition create_container :: "string \<Rightarrow> bool \<Rightarrow> world \<Rightarrow> (error + bool) \<times> world" where
  "create_container name fail_on_exist w =
     (let w' = emit (CreateContainer name fail_on_exist) w in
      case container w of
        Present \<Rightarrow>
          (if fail_on_exist then (Inl (AzureConflictHttpError ''ContainerAlreadyExists''), w')
           else (Inr False, w'))
      | BeingDeleted (Suc k) \<Rightarrow>
          (if fail_on_exist
           then (Inl (AzureConflictHttpError ''ContainerBeingDeleted''),
                 w'\<lparr>container := BeingDeleted k\<rparr>)
           else (Inr False, w'\<lparr>container := BeingDeleted k\<rparr>))
      | _ \<Rightarrow> (Inr True, w'\<lparr>container := Present, blobs := []\<rparr>))"

text \<open>The blob operations address blobs of the mission's container, which must exist.\<close>

definition blob_exists :: "string \<Rightarrow> string \<Rightarrow> world \<Rightarrow> bool \<times> world" where
  "blob_exists name blob w =
     (container w = Present \<and> map_of (blobs w) blob \<noteq> None, emit (BlobExists name blob) w)"

text \<open>A relative file name is taken from the current directory.\<close>

definition local_path :: "world \<Rightarrow> string \<Rightarrow> string" where
  "local_path w p = (if isabs p then p else path_join (cwd w) p)"

definition get_blob_to_path :: "string \<Rightarrow> string \<Rightarrow> string \<Rightarrow> world \<Rightarrow> world outcome" where
  "get_blob_to_path name blob file_path w =
     (let w' = emit (GetBlobToPath name blob file_path) w in
      if container w \<noteq> Present then Raise (AzureMissingResourceHttpError ''ContainerNotFound'') w'
      else case map_of (blobs w) blob of
             None \<Rightarrow> Raise (AzureMissingResourceHttpError ''BlobNotFound'') w'
           | Some content \<Rightarrow>
               Ok (w'\<lparr>files := AList.update (local_path w file_path) content (files w)\<rparr>))"

definition create_blob_from_path :: "string \<Rightarrow> string \<Rightarrow> string \<Rightarrow> world \<Rightarrow> world outcome" where
  "create_blob_from_path name blob file_path w =
     (case map_of (files w) (local_path w file_path) of
        None \<Rightarrow> Raise (FileNotFoundError file_path) w
      | Some content \<Rightarrow>
          (let w' = emit (CreateBlobFromPath name blob file_path) w in
           if container w \<noteq> Present
             then Raise (AzureMissingResourceHttpError ''ContainerNotFound'') w'
           else case put_error w blob of
                  Some e \<Rightarrow> Raise e w'
                | None \<Rightarrow> Ok (w'\<lparr>blobs := AList.update blob content (blobs w)\<rparr>)))"

text \<open>
  \<open>list_blobs\<close> returns the names under a prefix; the client follows the
  continuation tokens of the service and stops when all blobs are returned or
  \<open>num_results\<close> is reached.
\<close>

definition list_blobs :: "string \<Rightarrow> string \<Rightarrow> nat \<Rightarrow> world \<Rightarrow> (error + string list) \<times> world" where
  "list_blobs name pre num_results w =
     (let w' = emit (ListBlobs name pre num_results) w in
      if container w \<noteq> Present
        then (Inl (AzureMissingResourceHttpError ''ContainerNotFound''), w')
      else (Inr (take num_results (filter (prefix pre) (map fst (blobs w)))), w'))"

definition delete_blob :: "string \<Rightarrow> string \<Rightarrow> world \<Rightarrow> world outcome" where
  "delete_blob name blob w =
     (let w' = emit (DeleteBlob name blob) w in
      if container w \<noteq> Present then Raise (AzureMissingResourceHttpError ''ContainerNotFound'') w'
      else if map_of (blobs w) blob = None
        then Raise (AzureMissingResourceHttpError ''BlobNotFound'') w'
      else Ok (w'\<lparr>blobs := AList.delete blob (blobs w)\<rparr>))"

text \<open>Writing, reading and removing a local file.\<close>

definition write_file :: "string \<Rightarrow> string \<Rightarrow> world \<Rightarrow> world" where
  "write_file p content w = w\<lparr>files := AList.update (local_path w p) content (files w)\<rparr>"

definition read_file :: "string \<Rightarrow> world \<Rightarrow> error + string" where
  "read_file p w =
     (case map_of (files w) (local_path w p) of
        None \<Rightarrow> Inl (FileNotFoundError p) | Some content \<Rightarrow> Inr content)"

definition os_remove :: "string \<Rightarrow> world \<Rightarrow> world outcome" where
  "os_remove p w =
     (if map_of (files w) (local_path w p) = None then Raise (FileNotFoundError p) w
      else Ok (w\<lparr>files := AList.delete (local_path w p) (files w)\<rparr>))"

subsection \<open>\<open>_create_storage_container\<close>\<close>

text \<open>
  The loop of lines 192 to 210, entered with \<open>created = False\<close> and \<open>counter = 0\<close>.
  The counter is tested after each attempt, whatever the attempt returned.
\<close>

definition timeout_error :: error where
  "timeout_error = RuntimeError
     ''The container %s has been undergoing deletion for over 600 seconds. Please manually check the status.''"

function retry_create :: "bool \<Rightarrow> nat \<Rightarrow> world \<Rightarrow> world outcome" where
  "retry_create created counter w =
     (if \<not> created then
        (case create_container (container_name (info w)) False (time_sleep 5 w) of
           (Inl e, w') \<Rightarrow> Raise e w'
         | (Inr created', w') \<Rightarrow>
             if counter + 1 > 120 then Raise timeout_error w'
             else retry_create created' (counter + 1) w')
      else Ok w)"
  by pat_completeness auto
termination
  by (relation "measure (\<lambda>(created, counter, w). 121 - counter)") auto

declare retry_create.simps [simp del]

text \<open>Lines 216 to 239: the token, valid for one day from now, and the URL.\<close>

definition open_session :: "world \<Rightarrow> world outcome" where
  "open_session w =
     (let current_utc_time = clock w;
          name = container_name (info w);
          token = sas_signature w name current_utc_time (current_utc_time + 86400);
          w1 = emit (GenerateSAS name current_utc_time (current_utc_time + 86400)) w;
          w2 = w1\<lparr>container_token := Some token\<rparr>;
          url = container_url_of w2 name token;
          w3 = emit (MakeContainerUrl name token) w2
      in Ok (w3\<lparr>container_url := Some (str_replace ''restype=container&'' [] url)\<rparr>))"

text \<open>Lines 174 to 187: the ledger is read back from the container when it is there.\<close>

definition recover_uploaded_dirs :: "world \<Rightarrow> world outcome" where
  "recover_uploaded_dirs w =
     (case blob_exists (container_name (info w)) ''uploaded_dirs.dat'' w of (ex, w1) \<Rightarrow>
        if ex then
          (case get_blob_to_path (container_name (info w1)) ''uploaded_dirs.dat''
                  ''uploaded_dirs.dat'' w1 of
             Raise e w2 \<Rightarrow> Raise e w2
           | Ok w2 \<Rightarrow>
               (case read_file ''uploaded_dirs.dat'' w2 of
                  Inl e \<Rightarrow> Raise e w2
                | Inr content \<Rightarrow>
                    (case pickle_loads w2 content of
                       Inl e \<Rightarrow> Raise e w2
                     | Inr d \<Rightarrow> os_remove ''uploaded_dirs.dat'' (w2\<lparr>uploaded_dirs := d\<rparr>))))
        else Ok w1)"

definition create_storage_container :: "world \<Rightarrow> world outcome" where
  "create_storage_container w =
     (case (case create_container (container_name (info w)) True w of
              (Inr created, w1) \<Rightarrow> Ok w1
            | (Inl (AzureConflictHttpError code), w1) \<Rightarrow>
                if code = ''ContainerAlreadyExists'' then recover_uploaded_dirs w1
                else if code = ''ContainerBeingDeleted'' then retry_create False 0 w1
                else Raise (AzureConflictHttpError code) w1
            | (Inl e, w1) \<Rightarrow> Raise e w1) of
        Raise e w2 \<Rightarrow> Raise e w2
      | Ok w2 \<Rightarrow> open_session w2)"

subsection \<open>\<open>_upload_dir\<close>, \<open>_download_dir\<close>, \<open>_delete_dir\<close>\<close>

text \<open>
  \<open>os.walk(top)\<close> visits every directory under \<open>top\<close> and names its files: here, the
  pairs of directory and file name of the files whose path goes through \<open>top\<close>.
\<close>

definition under :: "string \<Rightarrow> string \<Rightarrow> bool" where
  "under walk_top p =
     (let t = (if walk_top \<noteq> [] \<and> last walk_top = CHR ''/'' then walk_top else walk_top @ ''/'')
      in prefix t p \<and> p \<noteq> t)"

definition os_walk :: "string \<Rightarrow> world \<Rightarrow> (string \<times> string) list" where
  "os_walk walk_top w = map (\<lambda>p. (dirname p, basename p)) (filter (under walk_top) (map fst (files w)))"

text \<open>The body of the loop of lines 305 to 314, and the loop.\<close>

definition upload_file :: "string \<Rightarrow> string \<times> string \<Rightarrow> world \<Rightarrow> world outcome" where
  "upload_file dir_path df w =
     (let file_path = path_join (abspath (cwd w) (fst df)) (snd df)
      in case relpath (cwd w) file_path (dirname dir_path) of
           Inl e \<Rightarrow> Raise e w
         | Inr blob_name \<Rightarrow>
             create_blob_from_path (container_name (info w)) blob_name file_path w)"

fun upload_files :: "string \<Rightarrow> (string \<times> string) list \<Rightarrow> world \<Rightarrow> world outcome" where
  "upload_files dir_path [] w = Ok w"
| "upload_files dir_path (df # dfs) w =
     (case upload_file dir_path df w of
        Raise e w' \<Rightarrow> Raise e w'
      | Ok w' \<Rightarrow> upload_files dir_path dfs w')"

text \<open>Lines 322 to 331 and 413 to 422: the ledger is written to the container.\<close>

definition persist_uploaded_dirs :: "world \<Rightarrow> world outcome" where
  "persist_uploaded_dirs w =
     (let w1 = write_file ''uploaded_dirs.dat'' (pickle_dumps w (uploaded_dirs w)) w
      in case create_blob_from_path (container_name (info w1)) ''uploaded_dirs.dat''
                ''uploaded_dirs.dat'' w1 of
           Raise e w2 \<Rightarrow> Raise e w2
         | Ok w2 \<Rightarrow> os_remove ''uploaded_dirs.dat'' w2)"

definition duplicate_case :: "string \<Rightarrow> error" where
  "duplicate_case dir_base_name =
     RuntimeError (''A case with the same base name '' @ dir_base_name @ '' ''
                   @ ''already exists in the container. Can't upload it.'')"

definition upload_dir :: "string \<Rightarrow> world \<Rightarrow> world outcome" where
  "upload_dir dir_path0 w =
     (let dir_path = abspath (cwd w) (normpath dir_path0);
          dir_base_name = basename dir_path
      in if uploaded_dirs w dir_base_name \<noteq> None then Raise (duplicate_case dir_base_name) w
         else if container_url w = None then Raise AssertionError w
         else if container_token w = None then Raise AssertionError w
         else case upload_files dir_path (os_walk dir_path w) w of
                Raise e w1 \<Rightarrow> Raise e w1
              | Ok w1 \<Rightarrow>
                  persist_uploaded_dirs
                    (w1\<lparr>uploaded_dirs := (uploaded_dirs w1)(dir_base_name \<mapsto> dirname dir_path)\<rparr>))"

definition not_in_container :: "string \<Rightarrow> error" where
  "not_in_container dir_path =
     RuntimeError (''Directory '' @ dir_path @ '' is not in the container.'')"

text \<open>The loop of lines 360 to 371; \<open>parent\<close> is \<open>self.uploaded_dirs[dir_base_name]\<close>.\<close>

fun download_blobs :: "string \<Rightarrow> string list \<Rightarrow> world \<Rightarrow> world outcome" where
  "download_blobs parent [] w = Ok w"
| "download_blobs parent (blob # rest) w =
     (case get_blob_to_path (container_name (info w)) blob (path_join parent blob) w of
        Raise e w' \<Rightarrow> Raise e w'
      | Ok w' \<Rightarrow> download_blobs parent rest w')"

definition download_dir :: "string \<Rightarrow> bool \<Rightarrow> world \<Rightarrow> world outcome" where
  "download_dir dir_path0 ignore_not_exist w =
     (let dir_path = abspath (cwd w) (normpath dir_path0);
          dir_base_name = basename dir_path
      in if container_url w = None then Raise AssertionError w
         else if container_token w = None then Raise AssertionError w
         else case uploaded_dirs w dir_base_name of
                None \<Rightarrow>
                  (if \<not> ignore_not_exist then Raise (not_in_container dir_path) w else Ok w)
              | Some parent \<Rightarrow>
                  (case list_blobs (container_name (info w)) (dir_base_name @ ''/'') 50000 w of
                     (Inl e, w1) \<Rightarrow> Raise e w1
                   | (Inr blob_list, w1) \<Rightarrow> download_blobs parent blob_list w1))"

text \<open>The loop of lines 402 to 407.\<close>

fun delete_blobs :: "string list \<Rightarrow> world \<Rightarrow> world outcome" where
  "delete_blobs [] w = Ok w"
| "delete_blobs (blob # rest) w =
     (case delete_blob (container_name (info w)) blob w of
        Raise e w' \<Rightarrow> Raise e w'
      | Ok w' \<Rightarrow> delete_blobs rest w')"

definition delete_dir :: "string \<Rightarrow> bool \<Rightarrow> world \<Rightarrow> world outcome" where
  "delete_dir dir_path0 ignore_not_exist w =
     (let dir_path = abspath (cwd w) (normpath dir_path0);
          dir_base_name = basename dir_path
      in if container_url w = None then Raise AssertionError w
         else if container_token w = None then Raise AssertionError w
         else if uploaded_dirs w dir_base_name = None then
                (if \<not> ignore_not_exist then Raise (not_in_container dir_path) w else Ok w)
         else case list_blobs (container_name (info w)) (dir_base_name @ ''/'') 50000 w of
                (Inl e, w1) \<Rightarrow> Raise e w1
              | (Inr blob_list, w1) \<Rightarrow>
                  (case delete_blobs blob_list w1 of
                     Raise e w2 \<Rightarrow> Raise e w2
                   | Ok w2 \<Rightarrow>
                       persist_uploaded_dirs
                         (w2\<lparr>uploaded_dirs := (uploaded_dirs w2)(dir_base_name := None)\<rparr>)))"

subsection \<open>Normal paths\<close>

text \<open>
  A normalised absolute path is a slash followed by its components joined by slashes,
  the root being the path of no component. A component is not empty, has no slash, and
  is neither \<open>.\<close> nor \<open>..\<close>.
\<close>

definition valid_comp :: "string \<Rightarrow> bool" where
  "valid_comp c \<longleftrightarrow> c \<noteq> [] \<and> CHR ''/'' \<notin> set c \<and> c \<noteq> ''.'' \<and> c \<noteq> ''..''"

definition render :: "string list \<Rightarrow> string" where
  "render cs = CHR ''/'' # join_sep cs"

definition components :: "string \<Rightarrow> string list" where
  "components p = filter (\<lambda>x. x \<noteq> []) (split_sep p)"

definition is_normal :: "string \<Rightarrow> bool" where
  "is_normal p \<longleftrightarrow>
     p = render (components p) \<and> (\<forall>c \<in> set (components p). c \<noteq> ''.'' \<and> c \<noteq> ''..'')"

text \<open>
  The components of a file path below those of the parent directory \<open>ps\<close>, joined:
  the name under which \<open>_upload_dir\<close> stores the file.
\<close>

definition stored_name :: "string list \<Rightarrow> string \<Rightarrow> string" where
  "stored_name ps k = join_sep (drop (length ps) (components k))"

subsection \<open>Counting requests, and a sample mission\<close>

definition is_pool_add :: "event \<Rightarrow> bool" where
  "is_pool_add e = (case e of PoolAdd _ \<Rightarrow> True | _ \<Rightarrow> False)"

definition is_pool_resize :: "event \<Rightarrow> bool" where
  "is_pool_resize e = (case e of PoolResize _ _ _ \<Rightarrow> True | _ \<Rightarrow> False)"

fun world_of :: "'a outcome \<Rightarrow> 'a" where
  "world_of (Ok w) = w"
| "world_of (Raise e w) = w"

text \<open>What \<open>k\<close> rounds of the steady-state loop add to the trace.\<close>

fun poll_events :: "string \<Rightarrow> nat \<Rightarrow> event list" where
  "poll_events pid 0 = []"
| "poll_events pid (Suc k) = Sleep 2 # PoolGet pid # poll_events pid k"

text \<open>
  The pool is first reported steady at poll number \<open>k + 1\<close> of a loop that starts now
  and polls every 2 seconds.
\<close>

definition steady_after :: "world \<Rightarrow> nat \<Rightarrow> bool" where
  "steady_after w k \<longleftrightarrow>
     alloc_at w (clock w + 2 * Suc k) = steady
     \<and> (\<forall>j<k. alloc_at w (clock w + 2 * Suc j) \<noteq> steady)"

definition is_create_container :: "event \<Rightarrow> bool" where
  "is_create_container e = (case e of CreateContainer _ _ \<Rightarrow> True | _ \<Rightarrow> False)"

text \<open>What \<open>k\<close> rounds of the retry loop add to the trace.\<close>

fun retry_events :: "string \<Rightarrow> nat \<Rightarrow> event list" where
  "retry_events name 0 = []"
| "retry_events name (Suc k) = Sleep 5 # CreateContainer name False # retry_events name k"

definition example_info :: mission_info where
  "example_info = \<lparr>pool_name = ''pool'', job_name = ''job'', container_name = ''mission'',
                    vm_type = ''STANDARD_A1_V2'', n_nodes = 3\<rparr>"

text \<open>
  A mission with an open session on an empty container, no pool, and a case directory
  \<open>/data/case1\<close> of two files on the local machine.
\<close>

definition example_world :: world where
  "example_world =
     \<lparr>info = example_info,
      container_token = Some ''sig'', container_url = Some ''https://acct/mission?sig'',
      uploaded_dirs = Map.empty,
      pool_target = None, alloc_at = (\<lambda>t. if t < 5 then resizing else steady),
      container = Present, blobs = [], put_error = (\<lambda>_. None),
      sas_signature = (\<lambda>n s e. ''sig''),
      container_url_of = (\<lambda>n t. ''https://acct/'' @ n @ ''?restype=container&'' @ t),
      cwd = ''/home/user'',
      files = [(''/data/case1/a.txt'', ''A''), (''/data/case1/sub/b.txt'', ''B'')],
      pickle_dumps = (\<lambda>m. ''pickled''), pickle_loads = (\<lambda>s. Inr [''case1'' \<mapsto> ''/data'']),
      clock = 0, trace = []\<rparr>"

text \<open>A container of \<open>n\<close> empty blobs under the prefix \<open>case1/\<close>.\<close>

definition many_blobs :: "nat \<Rightarrow> (string \<times> string) list" where
  "many_blobs n = map (\<lambda>i. (''case1/'' @ replicate i CHR ''x'', [])) [0..<n]"

text \<open>A blob service that refuses to store the ledger blob.\<close>

definition refuse_ledger :: "string \<Rightarrow> error option" where
  "refuse_ledger blob =
     (if blob = ''uploaded_dirs.dat'' then Some (AzureException ''ServerBusy'') else None)"

text \<open>A case directory \<open>/data/case1\<close> of \<open>n\<close> empty files.\<close>

definition many_files :: "nat \<Rightarrow> (string \<times> string) list" where
  "many_files n = map (\<lambda>i. (''/data/case1/'' @ replicate (Suc i) CHR ''x'', [])) [0..<n]"

section \<open>Properties\<close>

subsection \<open>Pool provisioning\<close>

text \<open>
  C1. Provisioning the pool is idempotent. When the batch service has no pool of the
  mission's name, \<open>_create_pool\<close> returns, and a second call on the world the first
  one left returns as well; the two calls together make four requests, of which exactly
  one is a pool creation and none is a resize, and the second call changes nothing but
  the list of requests (it only asks whether the pool exists and reads it).
\<close>

theorem ensure_pool_idempotent:
  assumes "pool_target w = None"
  shows "\<exists>w1 w2. create_pool w = Some (Ok w1) \<and> create_pool w1 = Some (Ok w2)
           \<and> trace w2 = trace w @ [PoolExists (pool_name (info w)), PoolAdd (pool_conf (info w)),
                                   PoolExists (pool_name (info w)), PoolGet (pool_name (info w))]
           \<and> length (filter is_pool_add (drop (length (trace w)) (trace w2))) = 1
           \<and> length (filter is_pool_resize (drop (length (trace w)) (trace w2))) = 0
           \<and> w2 = w1\<lparr>trace := trace w2\<rparr>"
  using assms
  by (simp add: create_pool_def pool_exists_def pool_add_def pool_get_def emit_def Let_def
        pool_conf_def is_pool_add_def is_pool_resize_def)

theorem ensure_pool_idempotent_witness:
  "pool_target example_world = None
   \<and> (\<exists>w1 w2. create_pool example_world = Some (Ok w1) \<and> create_pool w1 = Some (Ok w2)
         \<and> trace w2 = [PoolExists ''pool'', PoolAdd (pool_conf example_info),
                        PoolExists ''pool'', PoolGet ''pool'']
         \<and> length (filter is_pool_add (trace w2)) = 1
         \<and> length (filter is_pool_resize (trace w2)) = 0)"
proof -
  have h: "pool_target example_world = None"
    by (simp add: example_world_def)
  have i: "info example_world = example_info" "trace example_world = []"
    by (simp_all add: example_world_def)
  show ?thesis
    using h ensure_pool_idempotent [OF h] by (simp add: i example_info_def) blast
qed

text \<open>The steady-state loop, round by round.\<close>

lemma count_poll_events: "filter is_pool_resize (poll_events pid k) = []"
  by (induction k) (simp_all add: is_pool_resize_def)

lemma wait_steady_polls:
  "pool_target w = Some t \<Longrightarrow> allocation_state pi \<noteq> steady \<Longrightarrow> steady_after w k \<Longrightarrow>
   wait_steady pi w
     = Some (Ok (w\<lparr>clock := clock w + 2 * Suc k,
                   trace := trace w @ poll_events (pool_name (info w)) (Suc k)\<rparr>))"
proof (induction k arbitrary: pi w)
  case 0
  let ?w' = "w\<lparr>clock := clock w + 2, trace := trace w @ [Sleep 2, PoolGet (pool_name (info w))]\<rparr>"
  have get: "pool_get (pool_name (info w)) (time_sleep 2 w)
               = (Inr \<lparr>target_dedicated_nodes = t, allocation_state = steady\<rparr>, ?w')"
    using 0 by (simp add: pool_get_def time_sleep_def emit_def steady_after_def)
  have "wait_steady pi w = wait_steady \<lparr>target_dedicated_nodes = t, allocation_state = steady\<rparr> ?w'"
    using 0(2) by (subst wait_steady.simps) (simp add: get)
  also have "\<dots> = Some (Ok ?w')"
    by (subst wait_steady.simps) simp
  finally show ?case by simp
next
  case (Suc k)
  let ?w' = "w\<lparr>clock := clock w + 2, trace := trace w @ [Sleep 2, PoolGet (pool_name (info w))]\<rparr>"
  let ?pi' = "\<lparr>target_dedicated_nodes = t, allocation_state = alloc_at w (clock w + 2)\<rparr>"
  have ns: "alloc_at w (clock w + 2) \<noteq> steady"
    using Suc.prems(3) by (auto simp add: steady_after_def dest: spec [of _ 0])
  have get: "pool_get (pool_name (info w)) (time_sleep 2 w) = (Inr ?pi', ?w')"
    using Suc.prems(1) by (simp add: pool_get_def time_sleep_def emit_def)
  have sa: "steady_after ?w' k"
    using Suc.prems(3) by (auto simp add: steady_after_def dest: spec [of _ "Suc _"])
  have "wait_steady pi w = wait_steady ?pi' ?w'"
    using Suc.prems(2) by (subst wait_steady.simps) (simp add: get)
  also have "\<dots> = Some (Ok (?w'\<lparr>clock := clock ?w' + 2 * Suc k,
                   trace := trace ?w' @ poll_events (pool_name (info ?w')) (Suc k)\<rparr>))"
    using Suc.prems(1) ns sa by (intro Suc.IH [of ?w' ?pi']) simp_all
  finally show ?case by simp
qed

lemma wait_steady_returns:
  assumes "wait_steady pi w = Some r"
  shows "pool_target w \<noteq> None \<longrightarrow>
         allocation_state pi = steady \<or> (\<exists>j. alloc_at w (clock w + 2 * Suc j) = steady)"
  using assms
proof (induct rule: wait_steady.raw_induct [rotated 1, consumes 1, case_names step])
  case (step f pi w r)
  show ?case
  proof (cases "allocation_state pi = steady")
    case True
    then show ?thesis by simp
  next
    case False
    show ?thesis
    proof
      assume "pool_target w \<noteq> None"
      then obtain t where t: "pool_target w = Some t" by auto
      let ?w' = "w\<lparr>clock := clock w + 2,
                    trace := trace w @ [Sleep 2, PoolGet (pool_name (info w))]\<rparr>"
      let ?pi' = "\<lparr>target_dedicated_nodes = t, allocation_state = alloc_at w (clock w + 2)\<rparr>"
      have get: "pool_get (pool_name (info w)) (time_sleep 2 w) = (Inr ?pi', ?w')"
        using t by (simp add: pool_get_def time_sleep_def emit_def)
      from step(2) False have "f ?pi' ?w' = Some r"
        by (simp add: get)
      from step(1) [OF this] t
      have "alloc_at w (clock w + 2) = steady
            \<or> (\<exists>j. alloc_at w (clock w + 2 + 2 * Suc j) = steady)"
        by simp
      then show "allocation_state pi = steady
                 \<or> (\<exists>j. alloc_at w (clock w + 2 * Suc j) = steady)"
      proof
        assume "alloc_at w (clock w + 2) = steady"
        then have "alloc_at w (clock w + 2 * Suc 0) = steady" by simp
        then show ?thesis by blast
      next
        assume "\<exists>j. alloc_at w (clock w + 2 + 2 * Suc j) = steady"
        then obtain j where "alloc_at w (clock w + 2 + 2 * Suc j) = steady" ..
        then have "alloc_at w (clock w + 2 * Suc (Suc j)) = steady" by (simp add: add.assoc)
        then show ?thesis by blast
      qed
    qed
  qed
qed

lemma create_pool_never_steady:
  assumes "pool_target w = Some t" and "t \<noteq> n_nodes (info w)"
    and "alloc_at w (clock w) = resizing"
    and "\<forall>j. alloc_at w (clock w + 2 * Suc j) \<noteq> steady"
  shows "create_pool w = None"
proof -
  let ?pid = "pool_name (info w)"
  let ?w3 = "w\<lparr>trace := trace w @ [PoolExists ?pid, PoolGet ?pid, PoolStopResize ?pid]\<rparr>"
  let ?pi = "\<lparr>target_dedicated_nodes = t, allocation_state = resizing\<rparr>"
  have "wait_steady ?pi ?w3 = None"
  proof (cases "wait_steady ?pi ?w3")
    case (Some r)
    from wait_steady_returns [OF this] assms(1,4) show ?thesis by simp
  qed simp
  then show ?thesis
    using assms(1,2,3)
    by (simp add: create_pool_def pool_exists_def pool_get_def pool_stop_resize_def emit_def)
qed

text \<open>
  C2. Convergent resize. For an existing pool whose target differs from \<open>n_nodes\<close>,
  \<open>_create_pool\<close> issues exactly one resize request, with \<open>n_nodes\<close> and the option
  \<open>requeue\<close>, as its last request. When the pool was resizing, and is first reported
  steady at poll \<open>k + 1\<close>, the requests before it are the stop-resize and \<open>k + 1\<close>
  rounds of a 2-second sleep and a read of the pool, the last of which reports the
  steady state; the resize is then accepted. (When the pool is never reported steady
  the call never returns, by \<open>create_pool_never_steady\<close>.)
\<close>

theorem convergent_resize:
  assumes "pool_target w = Some t" and "t \<noteq> n_nodes (info w)"
    and "alloc_at w (clock w) = resizing \<longrightarrow> steady_after w k"
  shows "\<exists>r. create_pool w = Some r
           \<and> drop (length (trace w)) (trace (world_of r))
               = [PoolExists (pool_name (info w)), PoolGet (pool_name (info w))]
                 @ (if alloc_at w (clock w) = resizing
                    then PoolStopResize (pool_name (info w))
                           # poll_events (pool_name (info w)) (Suc k)
                    else [])
                 @ [PoolResize (pool_name (info w)) (n_nodes (info w)) ''requeue'']
           \<and> length (filter is_pool_resize (drop (length (trace w)) (trace (world_of r)))) = 1
           \<and> (alloc_at w (clock w) = resizing \<longrightarrow>
                r = Ok (world_of r) \<and> clock (world_of r) = clock w + 2 * Suc k
                \<and> alloc_at w (clock (world_of r)) = steady
                \<and> pool_target (world_of r) = Some (n_nodes (info w)))"
proof (cases "alloc_at w (clock w) = resizing")
  case True
  let ?pid = "pool_name (info w)"
  let ?w3 = "w\<lparr>trace := trace w @ [PoolExists ?pid, PoolGet ?pid, PoolStopResize ?pid]\<rparr>"
  let ?pi = "\<lparr>target_dedicated_nodes = t, allocation_state = resizing\<rparr>"
  let ?w4 = "?w3\<lparr>clock := clock ?w3 + 2 * Suc k,
                   trace := trace ?w3 @ poll_events (pool_name (info ?w3)) (Suc k)\<rparr>"
  from True assms(3) have sa: "steady_after w k" by simp
  then have sa3: "steady_after ?w3 k" by (simp add: steady_after_def)
  have st: "alloc_at w (clock w + 2 * Suc k) = steady"
    using sa by (simp add: steady_after_def)
  have loop: "wait_steady ?pi ?w3 = Some (Ok ?w4)"
    using assms(1) sa3 by (intro wait_steady_polls [where t = t]) simp_all
  have run: "create_pool w = Some (pool_resize ?pid (n_nodes (info w)) ''requeue'' ?w4)"
    using assms(1,2) True
    by (simp add: create_pool_def pool_exists_def pool_get_def pool_stop_resize_def emit_def loop
          del: poll_events.simps)
  have res: "pool_resize ?pid (n_nodes (info w)) ''requeue'' ?w4
               = Ok (?w4\<lparr>trace := trace ?w4 @ [PoolResize ?pid (n_nodes (info w)) ''requeue''],
                        pool_target := Some (n_nodes (info w))\<rparr>)"
    using assms(1) st by (simp add: pool_resize_def emit_def Let_def del: poll_events.simps)
  have fin: "create_pool w
               = Some (Ok (w\<lparr>clock := clock w + 2 * Suc k,
                             trace := trace w @ [PoolExists ?pid, PoolGet ?pid, PoolStopResize ?pid]
                                        @ poll_events ?pid (Suc k)
                                        @ [PoolResize ?pid (n_nodes (info w)) ''requeue''],
                             pool_target := Some (n_nodes (info w))\<rparr>))"
    unfolding run res by (simp del: poll_events.simps)
  show ?thesis
    unfolding fin using True st
    by (simp add: count_poll_events is_pool_resize_def del: poll_events.simps)
next
  case False
  let ?pid = "pool_name (info w)"
  let ?w2 = "w\<lparr>trace := trace w @ [PoolExists ?pid, PoolGet ?pid]\<rparr>"
  have run: "create_pool w = Some (pool_resize ?pid (n_nodes (info w)) ''requeue'' ?w2)"
    using assms(1,2) False
    by (simp add: create_pool_def pool_exists_def pool_get_def emit_def)
  show ?thesis
    using False assms(1)
    by (simp add: run pool_resize_def emit_def Let_def is_pool_resize_def)
qed

theorem convergent_resize_witness:
  "pool_target (example_world\<lparr>pool_target := Some 5\<rparr>) = Some 5
   \<and> 5 \<noteq> n_nodes (info (example_world\<lparr>pool_target := Some 5\<rparr>))
   \<and> alloc_at (example_world\<lparr>pool_target := Some 5\<rparr>)
        (clock (example_world\<lparr>pool_target := Some 5\<rparr>)) = resizing
   \<and> steady_after (example_world\<lparr>pool_target := Some 5\<rparr>) 2
   \<and> (\<exists>w'. create_pool (example_world\<lparr>pool_target := Some 5\<rparr>) = Some (Ok w')
         \<and> trace w' = [PoolExists ''pool'', PoolGet ''pool'', PoolStopResize ''pool'',
                        Sleep 2, PoolGet ''pool'', Sleep 2, PoolGet ''pool'',
                        Sleep 2, PoolGet ''pool'', PoolResize ''pool'' 3 ''requeue'']
         \<and> clock w' = 6 \<and> pool_target w' = Some 3)"
proof -
  let ?w = "example_world\<lparr>pool_target := Some 5\<rparr>"
  have i: "info ?w = example_info" "trace ?w = []" "clock ?w = 0"
      "alloc_at ?w = (\<lambda>t. if t < 5 then resizing else steady)"
    by (simp_all add: example_world_def)
  have h1: "pool_target ?w = Some 5" by simp
  have h2: "5 \<noteq> n_nodes (info ?w)" by (simp add: i example_info_def)
  have r: "alloc_at ?w (clock ?w) = resizing" by (simp add: i)
  have sa: "steady_after ?w 2"
    by (simp add: steady_after_def i All_less_Suc numeral_2_eq_2)
  have h3: "alloc_at ?w (clock ?w) = resizing \<longrightarrow> steady_after ?w 2"
    using sa by simp
  have p: "poll_events ''pool'' 3
             = [Sleep 2, PoolGet ''pool'', Sleep 2, PoolGet ''pool'', Sleep 2, PoolGet ''pool'']"
    by (simp add: numeral_3_eq_3)
  from convergent_resize [OF h1 h2 h3] obtain r where
    "create_pool ?w = Some r" and
    "drop (length (trace ?w)) (trace (world_of r))
               = [PoolExists (pool_name (info ?w)), PoolGet (pool_name (info ?w))]
                 @ (if alloc_at ?w (clock ?w) = resizing
                    then PoolStopResize (pool_name (info ?w))
                           # poll_events (pool_name (info ?w)) (Suc 2)
                    else [])
                 @ [PoolResize (pool_name (info ?w)) (n_nodes (info ?w)) ''requeue'']" and
    "alloc_at ?w (clock ?w) = resizing \<longrightarrow>
                r = Ok (world_of r) \<and> clock (world_of r) = clock ?w + 2 * Suc 2
                \<and> alloc_at ?w (clock (world_of r)) = steady
                \<and> pool_target (world_of r) = Some (n_nodes (info ?w))"
    by blast
  then have "create_pool ?w = Some (Ok (world_of r))
     \<and> trace (world_of r) = [PoolExists ''pool'', PoolGet ''pool'', PoolStopResize ''pool'',
                        Sleep 2, PoolGet ''pool'', Sleep 2, PoolGet ''pool'',
                        Sleep 2, PoolGet ''pool'', PoolResize ''pool'' 3 ''requeue'']
     \<and> clock (world_of r) = 6 \<and> pool_target (world_of r) = Some 3"
    using r by (simp add: i p example_info_def del: poll_events.simps)
  then show ?thesis
    using h1 h2 r sa by blast
qed

subsection \<open>The storage container\<close>

text \<open>
  C4. Ledger recovery. When the container exists and holds a blob \<open>uploaded_dirs.dat\<close>,
  \<open>_create_storage_container\<close> returns exactly when the content of that blob
  unpickles, and then \<open>uploaded_dirs\<close> is the unpickled mapping; when the content does
  not unpickle, the method raises the error of \<open>pickle.loads\<close>.
\<close>

theorem ledger_recovery:
  assumes "container w = Present"
    and "map_of (blobs w) ''uploaded_dirs.dat'' = Some content"
  shows "case pickle_loads w content of
           Inr d \<Rightarrow> (\<exists>w'. create_storage_container w = Ok w' \<and> uploaded_dirs w' = d)
         | Inl e \<Rightarrow> (\<exists>w'. create_storage_container w = Raise e w')"
  using assms
  by (auto simp add: create_storage_container_def create_container_def recover_uploaded_dirs_def
        blob_exists_def get_blob_to_path_def read_file_def os_remove_def open_session_def
        emit_def local_path_def Let_def update_conv' split: sum.splits)

theorem ledger_recovery_witness:
  "container (example_world\<lparr>blobs := [(''uploaded_dirs.dat'', ''pickled'')]\<rparr>) = Present
   \<and> map_of (blobs (example_world\<lparr>blobs := [(''uploaded_dirs.dat'', ''pickled'')]\<rparr>))
        ''uploaded_dirs.dat'' = Some ''pickled''
   \<and> (\<exists>w'. create_storage_container
              (example_world\<lparr>blobs := [(''uploaded_dirs.dat'', ''pickled'')]\<rparr>) = Ok w'
          \<and> uploaded_dirs w' = [''case1'' \<mapsto> ''/data''])"
proof -
  let ?w = "example_world\<lparr>blobs := [(''uploaded_dirs.dat'', ''pickled'')]\<rparr>"
  have h1: "container ?w = Present"
    by (simp add: example_world_def)
  have h2: "map_of (blobs ?w) ''uploaded_dirs.dat'' = Some ''pickled''"
    by simp
  have l: "pickle_loads example_world ''pickled'' = Inr [''case1'' \<mapsto> ''/data'']"
    by (simp add: example_world_def)
  show ?thesis
    using h1 h2 ledger_recovery [OF h1 h2] by (simp add: l)
qed

text \<open>The retry loop, round by round.\<close>

lemma count_retry_events:
  "length (filter is_create_container (retry_events name k)) = k"
  by (induction k) (simp_all add: is_create_container_def)

lemma retry_create_success:
  "container w = BeingDeleted k \<Longrightarrow> c + k < 120 \<Longrightarrow>
   retry_create False c w
     = Ok (w\<lparr>clock := clock w + 5 * Suc k,
             trace := trace w @ retry_events (container_name (info w)) (Suc k),
             container := Present, blobs := []\<rparr>)"
proof (induction k arbitrary: c w)
  case 0
  then show ?case
    by (simp add: retry_create.simps [of False] retry_create.simps [of True]
          create_container_def time_sleep_def emit_def Let_def)
next
  case (Suc k)
  let ?w' = "w\<lparr>clock := clock w + 5,
                trace := trace w @ [Sleep 5, CreateContainer (container_name (info w)) False],
                container := BeingDeleted k\<rparr>"
  have step: "create_container (container_name (info w)) False (time_sleep 5 w) = (Inr False, ?w')"
    using Suc.prems(1) by (simp add: create_container_def time_sleep_def emit_def Let_def)
  have "retry_create False c w = retry_create False (c + 1) ?w'"
    using Suc.prems(2) by (subst retry_create.simps) (simp add: step)
  also have "\<dots> = Ok (?w'\<lparr>clock := clock ?w' + 5 * Suc k,
             trace := trace ?w' @ retry_events (container_name (info ?w')) (Suc k),
             container := Present, blobs := []\<rparr>)"
    using Suc.prems(2) by (intro Suc.IH) simp_all
  finally show ?case by simp
qed

lemma retry_create_timeout:
  "container w = BeingDeleted k \<Longrightarrow> c + j = 120 \<Longrightarrow> j < k \<Longrightarrow>
   retry_create False c w
     = Raise timeout_error
         (w\<lparr>clock := clock w + 5 * Suc j,
            trace := trace w @ retry_events (container_name (info w)) (Suc j),
            container := BeingDeleted (k - Suc j)\<rparr>)"
proof (induction j arbitrary: c k w)
  case 0
  then obtain k' where k: "k = Suc k'" by (cases k) auto
  with 0 show ?case
    by (simp add: retry_create.simps [of False] timeout_error_def
          create_container_def time_sleep_def emit_def Let_def)
next
  case (Suc j)
  then obtain k' where k: "k = Suc k'" by (cases k) auto
  let ?w' = "w\<lparr>clock := clock w + 5,
                trace := trace w @ [Sleep 5, CreateContainer (container_name (info w)) False],
                container := BeingDeleted k'\<rparr>"
  have step: "create_container (container_name (info w)) False (time_sleep 5 w) = (Inr False, ?w')"
    using Suc.prems(1) k by (simp add: create_container_def time_sleep_def emit_def Let_def)
  have "retry_create False c w = retry_create False (c + 1) ?w'"
    using Suc.prems(2) by (subst retry_create.simps) (simp add: step)
  also have "\<dots> = Raise timeout_error
         (?w'\<lparr>clock := clock ?w' + 5 * Suc j,
            trace := trace ?w' @ retry_events (container_name (info ?w')) (Suc j),
            container := BeingDeleted (k' - Suc j)\<rparr>)"
    using Suc.prems k by (intro Suc.IH) simp_all
  finally show ?case using k by simp
qed

lemma retry_create_late_success:
  "container w = BeingDeleted k \<Longrightarrow> c + k = 120 \<Longrightarrow>
   retry_create False c w
     = Raise timeout_error
         (w\<lparr>clock := clock w + 5 * Suc k,
            trace := trace w @ retry_events (container_name (info w)) (Suc k),
            container := Present, blobs := []\<rparr>)"
proof (induction k arbitrary: c w)
  case 0
  then show ?case
    by (simp add: retry_create.simps [of False] create_container_def time_sleep_def emit_def
          Let_def)
next
  case (Suc k)
  let ?w' = "w\<lparr>clock := clock w + 5,
                trace := trace w @ [Sleep 5, CreateContainer (container_name (info w)) False],
                container := BeingDeleted k\<rparr>"
  have step: "create_container (container_name (info w)) False (time_sleep 5 w) = (Inr False, ?w')"
    using Suc.prems(1) by (simp add: create_container_def time_sleep_def emit_def Let_def)
  have "retry_create False c w = retry_create False (c + 1) ?w'"
    using Suc.prems(2) by (subst retry_create.simps) (simp add: step)
  also have "\<dots> = Raise timeout_error
         (?w'\<lparr>clock := clock ?w' + 5 * Suc k,
            trace := trace ?w' @ retry_events (container_name (info ?w')) (Suc k),
            container := Present, blobs := []\<rparr>)"
    using Suc.prems(2) by (intro Suc.IH) simp_all
  finally show ?case by simp
qed

lemma create_storage_container_retried:
  assumes "container w = BeingDeleted N" and "1 \<le> N" and "N \<le> 120"
  shows "\<exists>w'. create_storage_container w = Ok w' \<and> container w' = Present
           \<and> clock w' = clock w + 5 * N
           \<and> trace w' = trace w @ CreateContainer (container_name (info w)) True
                           # retry_events (container_name (info w)) N
                           @ [GenerateSAS (container_name (info w)) (clock w + 5 * N)
                                (clock w + 5 * N + 86400),
                              MakeContainerUrl (container_name (info w))
                                (sas_signature w (container_name (info w)) (clock w + 5 * N)
                                   (clock w + 5 * N + 86400))]"
proof -
  obtain k where N: "N = Suc k" using assms(2) by (cases N) auto
  let ?w1 = "w\<lparr>trace := trace w @ [CreateContainer (container_name (info w)) True],
                container := BeingDeleted k\<rparr>"
  have first: "create_container (container_name (info w)) True w
                 = (Inl (AzureConflictHttpError ''ContainerBeingDeleted''), ?w1)"
    using assms(1) N by (simp add: create_container_def emit_def Let_def)
  have retry: "retry_create False 0 ?w1
     = Ok (?w1\<lparr>clock := clock ?w1 + 5 * Suc k,
             trace := trace ?w1 @ retry_events (container_name (info ?w1)) (Suc k),
             container := Present, blobs := []\<rparr>)"
    using assms(3) N by (intro retry_create_success) simp_all
  show ?thesis
    unfolding create_storage_container_def first
    by (simp add: retry open_session_def emit_def Let_def N)
qed

lemma create_storage_container_timeout:
  assumes "container w = BeingDeleted M" and "122 \<le> M"
  shows "\<exists>w'. create_storage_container w = Raise timeout_error w'
           \<and> container_token w' = container_token w \<and> container_url w' = container_url w
           \<and> trace w' = trace w @ CreateContainer (container_name (info w)) True
                           # retry_events (container_name (info w)) 121"
proof -
  obtain k where M: "M = Suc k" using assms(2) by (cases M) auto
  let ?w1 = "w\<lparr>trace := trace w @ [CreateContainer (container_name (info w)) True],
                container := BeingDeleted k\<rparr>"
  have first: "create_container (container_name (info w)) True w
                 = (Inl (AzureConflictHttpError ''ContainerBeingDeleted''), ?w1)"
    using assms(1) M by (simp add: create_container_def emit_def Let_def)
  have retry: "retry_create False 0 ?w1
     = Raise timeout_error
         (?w1\<lparr>clock := clock ?w1 + 5 * Suc 120,
            trace := trace ?w1 @ retry_events (container_name (info ?w1)) (Suc 120),
            container := BeingDeleted (k - Suc 120)\<rparr>)"
    using assms(2) M by (intro retry_create_timeout) simp_all
  have e: "Suc 120 = 121" by simp
  show ?thesis
    unfolding create_storage_container_def first
    by (simp add: retry e del: retry_events.simps)
qed


lemma create_storage_container_late_success:
  assumes "container w = BeingDeleted 121"
  shows "\<exists>w'. create_storage_container w = Raise timeout_error w'
           \<and> container w' = Present \<and> blobs w' = []
           \<and> container_token w' = container_token w \<and> container_url w' = container_url w
           \<and> clock w' = clock w + 605
           \<and> trace w' = trace w @ CreateContainer (container_name (info w)) True
                           # retry_events (container_name (info w)) 121"
proof -
  let ?w1 = "w\<lparr>trace := trace w @ [CreateContainer (container_name (info w)) True],
                container := BeingDeleted 120\<rparr>"
  have e: "(121::nat) = Suc 120" by simp
  have first: "create_container (container_name (info w)) True w
                 = (Inl (AzureConflictHttpError ''ContainerBeingDeleted''), ?w1)"
    using assms unfolding e by (simp add: create_container_def emit_def Let_def)
  have retry: "retry_create False 0 ?w1
     = Raise timeout_error
         (?w1\<lparr>clock := clock ?w1 + 5 * Suc 120,
            trace := trace ?w1 @ retry_events (container_name (info ?w1)) (Suc 120),
            container := Present, blobs := []\<rparr>)"
    by (intro retry_create_late_success) simp_all
  show ?thesis
    unfolding create_storage_container_def first
    by (simp add: retry e [symmetric] del: retry_events.simps)
qed

text \<open>
  The loop within its bound and beyond it. When the first creation attempt is refused
  with \<open>ContainerBeingDeleted\<close>, so are the next \<open>N - 1\<close>, and the \<open>N\<close>-th
  retry succeeds, then for \<open>1 \<le> N \<le> 120\<close> the method makes exactly \<open>N + 1\<close>
  creation attempts, each retry after a sleep of 5 seconds, and returns with the
  container created by the last one. When the first attempt and the 121 retries after
  it are all refused (\<open>M \<ge> 122\<close>), the method raises the time-out error after these
  122 attempts and makes no further one; the session stays as it was.
\<close>

lemma backoff_within_and_beyond_bound:
  assumes "container w = BeingDeleted N" and "1 \<le> N" and "N \<le> 120"
    and "container v = BeingDeleted M" and "122 \<le> M"
  shows "(\<exists>w'. create_storage_container w = Ok w' \<and> container w' = Present
            \<and> clock w' = clock w + 5 * N
            \<and> take (2 * N + 1) (drop (length (trace w)) (trace w'))
                 = CreateContainer (container_name (info w)) True
                     # retry_events (container_name (info w)) N
            \<and> length (filter is_create_container (drop (length (trace w)) (trace w'))) = N + 1)
       \<and> (\<exists>v'. create_storage_container v = Raise timeout_error v'
            \<and> container_token v' = container_token v \<and> container_url v' = container_url v
            \<and> drop (length (trace v)) (trace v')
                 = CreateContainer (container_name (info v)) True
                     # retry_events (container_name (info v)) 121
            \<and> length (filter is_create_container (drop (length (trace v)) (trace v'))) = 122)"
proof -
  have len: "length (retry_events name k) = 2 * k" for name k
    by (induction k) simp_all
  obtain w' where w': "create_storage_container w = Ok w'" "container w' = Present"
      "clock w' = clock w + 5 * N"
      "trace w' = trace w @ CreateContainer (container_name (info w)) True
                           # retry_events (container_name (info w)) N
                           @ [GenerateSAS (container_name (info w)) (clock w + 5 * N)
                                (clock w + 5 * N + 86400),
                              MakeContainerUrl (container_name (info w))
                                (sas_signature w (container_name (info w)) (clock w + 5 * N)
                                   (clock w + 5 * N + 86400))]"
    using create_storage_container_retried [OF assms(1,2,3)] by blast
  obtain v' where v': "create_storage_container v = Raise timeout_error v'"
      "container_token v' = container_token v" "container_url v' = container_url v"
      "trace v' = trace v @ CreateContainer (container_name (info v)) True
                           # retry_events (container_name (info v)) 121"
    using create_storage_container_timeout [OF assms(4,5)] by blast
  have "take (2 * N + 1) (drop (length (trace w)) (trace w'))
          = CreateContainer (container_name (info w)) True
              # retry_events (container_name (info w)) N"
    by (simp add: w'(4) len)
  moreover have "length (filter is_create_container (drop (length (trace w)) (trace w'))) = N + 1"
    by (simp add: w'(4) count_retry_events is_create_container_def)
  moreover have "length (filter is_create_container (drop (length (trace v)) (trace v'))) = 122"
    by (simp add: v'(4) count_retry_events is_create_container_def del: retry_events.simps)
  ultimately show ?thesis
    using w'(1,2,3) v'(1,2,3,4) by simp
qed

text \<open>
  C3. The code departs from the claim at \<open>N = 121\<close>. The first attempt and the
  next 120 are refused with \<open>ContainerBeingDeleted\<close> and retry 121 creates the
  container, so the method should return after \<open>N + 1 = 122\<close> attempts with the last
  one successful. It makes these 122 attempts, 605 seconds of sleep between them, and
  the last one does create the container; but lines 204 to 210 test the counter after
  every attempt, whatever it returned, so the method raises the time-out error and
  opens no session.
\<close>

theorem timeout_after_successful_retry:
  "\<exists>w'. create_storage_container
           (example_world\<lparr>container_token := None, container_url := None,
                            container := BeingDeleted 121\<rparr>)
         = Raise timeout_error w'
       \<and> container w' = Present
       \<and> container_token w' = None \<and> container_url w' = None
       \<and> clock w' = 605
       \<and> length (filter is_create_container (trace w')) = 121 + 1
       \<and> last (trace w') = CreateContainer ''mission'' False"
proof -
  let ?w = "example_world\<lparr>container_token := None, container_url := None,
                            container := BeingDeleted 121\<rparr>"
  have "container ?w = BeingDeleted 121" by simp
  from create_storage_container_late_success [OF this]
  obtain w' where r: "create_storage_container ?w = Raise timeout_error w'"
    and s: "container w' = Present" "container_token w' = container_token ?w"
      "container_url w' = container_url ?w" "clock w' = clock ?w + 605"
    and t: "trace w' = trace ?w @ CreateContainer (container_name (info ?w)) True
                           # retry_events (container_name (info ?w)) 121"
    by blast
  have i: "trace ?w = []" "clock ?w = 0" "container_name (info ?w) = ''mission''"
    by (simp_all add: example_world_def example_info_def)
  have l: "last (retry_events name (Suc k)) = CreateContainer name False" for name k
    by (induction k) simp_all
  have ne: "retry_events name (Suc k) \<noteq> []" for name k
    by simp
  have e: "(121::nat) = Suc 120" by simp
  have "trace w' = [] @ CreateContainer ''mission'' True # retry_events ''mission'' 121"
    unfolding t i ..
  then have t2: "trace w' = CreateContainer ''mission'' True # retry_events ''mission'' (Suc 120)"
    unfolding e by (simp only: append_Nil)
  have "length (filter is_create_container (trace w')) = 121 + 1"
    unfolding t i by (simp add: count_retry_events is_create_container_def del: retry_events.simps)
  moreover have "last (trace w') = last (retry_events ''mission'' (Suc 120))"
    unfolding t2 using ne [of "''mission''" 120] by (rule last_ConsR)
  then have "last (trace w') = CreateContainer ''mission'' False"
    unfolding l .
  ultimately show ?thesis
    using r s by (simp add: i)
qed

subsection \<open>Staging, fetching and purging a case directory\<close>

text \<open>
  C5. Staging uniqueness. The key is the base name of the normalised absolute path, not
  the path: when that name has an entry in \<open>uploaded_dirs\<close>, whatever its parent
  directory, \<open>_upload_dir\<close> raises the duplicate-case error and leaves the world as it
  was, so it sends no request, stores no blob, and changes neither the ledger in memory
  nor the ledger blob.
\<close>

theorem upload_dir_duplicate_case:
  assumes "uploaded_dirs w (basename (abspath (cwd w) (normpath dir_path))) \<noteq> None"
  shows "upload_dir dir_path w
           = Raise (duplicate_case (basename (abspath (cwd w) (normpath dir_path)))) w"
  using assms by (simp add: upload_dir_def Let_def)

theorem upload_dir_duplicate_case_witness:
  "uploaded_dirs (example_world\<lparr>uploaded_dirs := [''case1'' \<mapsto> ''/data'']\<rparr>)
     (basename (abspath (cwd (example_world\<lparr>uploaded_dirs := [''case1'' \<mapsto> ''/data'']\<rparr>))
        (normpath ''/elsewhere/case1/''))) \<noteq> None
   \<and> upload_dir ''/elsewhere/case1/'' (example_world\<lparr>uploaded_dirs := [''case1'' \<mapsto> ''/data'']\<rparr>)
       = Raise (duplicate_case ''case1'')
           (example_world\<lparr>uploaded_dirs := [''case1'' \<mapsto> ''/data'']\<rparr>)"
proof -
  let ?w = "example_world\<lparr>uploaded_dirs := [''case1'' \<mapsto> ''/data'']\<rparr>"
  have p: "basename (abspath ''/home/user'' (normpath ''/elsewhere/case1/'')) = ''case1''"
    by code_simp
  have c: "cwd ?w = ''/home/user''"
    by (simp add: example_world_def)
  have h: "uploaded_dirs ?w (basename (abspath (cwd ?w) (normpath ''/elsewhere/case1/''))) \<noteq> None"
    by (simp add: c p)
  show ?thesis
    using h upload_dir_duplicate_case [OF h] by (simp add: c p)
qed

text \<open>
  C8. Missing-case policy. With an open session and a base name that has no entry in
  \<open>uploaded_dirs\<close>, \<open>_download_dir\<close> and \<open>_delete_dir\<close> return and leave the world
  as it was when \<open>ignore_not_exist\<close> is true (no request to the blob service, no change
  of the ledger), and raise the not-in-container error, again with the world as it was,
  when it is false.
\<close>

theorem missing_case_policy:
  assumes "container_url w \<noteq> None" and "container_token w \<noteq> None"
    and "uploaded_dirs w (basename (abspath (cwd w) (normpath dir_path))) = None"
  shows "download_dir dir_path True w = Ok w \<and> delete_dir dir_path True w = Ok w
       \<and> download_dir dir_path False w
           = Raise (not_in_container (abspath (cwd w) (normpath dir_path))) w
       \<and> delete_dir dir_path False w
           = Raise (not_in_container (abspath (cwd w) (normpath dir_path))) w"
  using assms by (auto simp add: download_dir_def delete_dir_def Let_def)

theorem missing_case_policy_witness:
  "container_url example_world \<noteq> None \<and> container_token example_world \<noteq> None
   \<and> uploaded_dirs example_world
        (basename (abspath (cwd example_world) (normpath ''/data/case1''))) = None
   \<and> download_dir ''/data/case1'' True example_world = Ok example_world
   \<and> delete_dir ''/data/case1'' True example_world = Ok example_world
   \<and> download_dir ''/data/case1'' False example_world
        = Raise (not_in_container ''/data/case1'') example_world
   \<and> delete_dir ''/data/case1'' False example_world
        = Raise (not_in_container ''/data/case1'') example_world"
proof -
  have p: "abspath (cwd example_world) (normpath ''/data/case1'') = ''/data/case1''"
    unfolding example_world_def by code_simp
  have h1: "container_url example_world \<noteq> None"
    by (simp add: example_world_def)
  have h2: "container_token example_world \<noteq> None"
    by (simp add: example_world_def)
  have h3: "uploaded_dirs example_world
              (basename (abspath (cwd example_world) (normpath ''/data/case1''))) = None"
    by (simp add: example_world_def)
  show ?thesis
    using h1 h2 h3 missing_case_policy [OF h1 h2 h3] by (simp add: p)
qed

text \<open>
  C9. Order of the checks. Without a session (no URL or no token), \<open>_download_dir\<close> and
  \<open>_delete_dir\<close> raise \<open>AssertionError\<close> for every path and either value of
  \<open>ignore_not_exist\<close>, whether or not the base name is in the ledger: the assertions
  come before the look-up. \<open>_upload_dir\<close> looks the base name up first, so a duplicate
  case raises the duplicate-case error even without a session.
\<close>

theorem session_check_order:
  assumes "container_url w = None \<or> container_token w = None"
  shows "download_dir dir_path ignore_not_exist w = Raise AssertionError w
       \<and> delete_dir dir_path ignore_not_exist w = Raise AssertionError w
       \<and> (uploaded_dirs w (basename (abspath (cwd w) (normpath dir_path))) \<noteq> None \<longrightarrow>
            upload_dir dir_path w
              = Raise (duplicate_case (basename (abspath (cwd w) (normpath dir_path)))) w)"
  using assms by (auto simp add: download_dir_def delete_dir_def upload_dir_def Let_def)

theorem session_check_order_witness:
  "(container_url (example_world\<lparr>container_url := None, uploaded_dirs := [''case1'' \<mapsto> ''/data'']\<rparr>) = None
      \<or> container_token (example_world\<lparr>container_url := None, uploaded_dirs := [''case1'' \<mapsto> ''/data'']\<rparr>) = None)
   \<and> download_dir ''/data/other'' True
        (example_world\<lparr>container_url := None, uploaded_dirs := [''case1'' \<mapsto> ''/data'']\<rparr>)
       = Raise AssertionError
           (example_world\<lparr>container_url := None, uploaded_dirs := [''case1'' \<mapsto> ''/data'']\<rparr>)
   \<and> delete_dir ''/data/other'' True
        (example_world\<lparr>container_url := None, uploaded_dirs := [''case1'' \<mapsto> ''/data'']\<rparr>)
       = Raise AssertionError
           (example_world\<lparr>container_url := None, uploaded_dirs := [''case1'' \<mapsto> ''/data'']\<rparr>)
   \<and> uploaded_dirs (example_world\<lparr>container_url := None, uploaded_dirs := [''case1'' \<mapsto> ''/data'']\<rparr>)
        (basename (abspath ''/home/user'' (normpath ''/data/case1''))) \<noteq> None
   \<and> upload_dir ''/data/case1''
        (example_world\<lparr>container_url := None, uploaded_dirs := [''case1'' \<mapsto> ''/data'']\<rparr>)
       = Raise (duplicate_case ''case1'')
           (example_world\<lparr>container_url := None, uploaded_dirs := [''case1'' \<mapsto> ''/data'']\<rparr>)"
proof -
  let ?w = "example_world\<lparr>container_url := None, uploaded_dirs := [''case1'' \<mapsto> ''/data'']\<rparr>"
  have p: "basename (abspath ''/home/user'' (normpath ''/data/case1'')) = ''case1''"
    by code_simp
  have c: "cwd ?w = ''/home/user''"
    by (simp add: example_world_def)
  have h: "container_url ?w = None \<or> container_token ?w = None"
    by simp
  have d: "uploaded_dirs ?w (basename (abspath ''/home/user'' (normpath ''/data/case1''))) \<noteq> None"
    by (simp add: p)
  show ?thesis
    using h d session_check_order [OF h, of "''/data/other''" True]
      session_check_order [OF h, of "''/data/case1''" True]
    by (simp add: c p)
qed

subsection \<open>Purging a case directory\<close>

text \<open>Writing the ledger back, and the deletion loop.\<close>

lemma persist_uploaded_dirs_ok:
  assumes "container w = Present" and "put_error w ''uploaded_dirs.dat'' = None"
  shows "persist_uploaded_dirs w
           = Ok (w\<lparr>files := AList.delete (local_path w ''uploaded_dirs.dat'') (files w),
                   blobs := AList.update ''uploaded_dirs.dat'' (pickle_dumps w (uploaded_dirs w))
                              (blobs w),
                   trace := trace w @ [CreateBlobFromPath (container_name (info w))
                                         ''uploaded_dirs.dat'' ''uploaded_dirs.dat'']\<rparr>)"
  using assms
  by (simp add: persist_uploaded_dirs_def write_file_def create_blob_from_path_def os_remove_def
        local_path_def emit_def Let_def update_conv' delete_update_same)

lemma persist_uploaded_dirs_refused:
  assumes "container w = Present" and "put_error w ''uploaded_dirs.dat'' = Some e"
  shows "persist_uploaded_dirs w
           = Raise e
               (w\<lparr>files := AList.update (local_path w ''uploaded_dirs.dat'')
                              (pickle_dumps w (uploaded_dirs w)) (files w),
                  trace := trace w @ [CreateBlobFromPath (container_name (info w))
                                        ''uploaded_dirs.dat'' ''uploaded_dirs.dat'']\<rparr>)"
  using assms
  by (simp add: persist_uploaded_dirs_def write_file_def create_blob_from_path_def
        local_path_def emit_def Let_def update_conv')

lemma map_of_fold_delete:
  "map_of (fold AList.delete ns al) = (\<lambda>n. if n \<in> set ns then None else map_of al n)"
  by (induction ns arbitrary: al) (auto simp add: delete_conv' fun_eq_iff)

lemma delete_blobs_ok:
  "container w = Present \<Longrightarrow> distinct ns \<Longrightarrow> set ns \<subseteq> fst ` set (blobs w) \<Longrightarrow>
   delete_blobs ns w
     = Ok (w\<lparr>blobs := fold AList.delete ns (blobs w),
             trace := trace w @ map (DeleteBlob (container_name (info w))) ns\<rparr>)"
proof (induction ns arbitrary: w)
  case Nil
  then show ?case by simp
next
  case (Cons n ns)
  let ?w1 = "w\<lparr>blobs := AList.delete n (blobs w),
                trace := trace w @ [DeleteBlob (container_name (info w)) n]\<rparr>"
  have "map_of (blobs w) n \<noteq> None"
    using Cons.prems(3) by (simp add: map_of_eq_None_iff)
  then have one: "delete_blob (container_name (info w)) n w = Ok ?w1"
    using Cons.prems(1) by (simp add: delete_blob_def emit_def Let_def)
  have sub: "set ns \<subseteq> fst ` set (blobs ?w1)"
  proof
    fix m assume m: "m \<in> set ns"
    with Cons.prems(2) have "m \<noteq> n" by auto
    moreover from m Cons.prems(3) have "map_of (blobs w) m \<noteq> None"
      by (auto simp add: map_of_eq_None_iff)
    ultimately have "map_of (AList.delete n (blobs w)) m \<noteq> None" by simp
    then show "m \<in> fst ` set (blobs ?w1)" by (simp add: map_of_eq_None_iff)
  qed
  have "delete_blobs ns ?w1
          = Ok (?w1\<lparr>blobs := fold AList.delete ns (blobs ?w1),
                  trace := trace ?w1 @ map (DeleteBlob (container_name (info ?w1))) ns\<rparr>)"
    using Cons.prems(1,2) sub by (intro Cons.IH) simp_all
  then show ?case by (simp add: one)
qed

lemma delete_dir_reaches_persist:
  assumes "container_url w \<noteq> None" and "container_token w \<noteq> None"
    and "uploaded_dirs w (basename (abspath (cwd w) (normpath dir_path))) \<noteq> None"
    and "container w = Present" and "distinct (map fst (blobs w))"
  shows "delete_dir dir_path ignore_not_exist w
           = persist_uploaded_dirs
               (w\<lparr>blobs := fold AList.delete
                             (take 50000 (filter
                                (prefix (basename (abspath (cwd w) (normpath dir_path)) @ ''/''))
                                (map fst (blobs w))))
                             (blobs w),
                  trace := trace w
                    @ ListBlobs (container_name (info w))
                        (basename (abspath (cwd w) (normpath dir_path)) @ ''/'') 50000
                    # map (DeleteBlob (container_name (info w)))
                        (take 50000 (filter
                           (prefix (basename (abspath (cwd w) (normpath dir_path)) @ ''/''))
                           (map fst (blobs w)))),
                  uploaded_dirs := (uploaded_dirs w)
                     (basename (abspath (cwd w) (normpath dir_path)) := None)\<rparr>)"
proof -
  let ?base = "basename (abspath (cwd w) (normpath dir_path))"
  let ?ns = "take 50000 (filter (prefix (?base @ ''/'')) (map fst (blobs w)))"
  let ?w1 = "w\<lparr>trace := trace w @ [ListBlobs (container_name (info w)) (?base @ ''/'') 50000]\<rparr>"
  let ?w2 = "?w1\<lparr>blobs := fold AList.delete ?ns (blobs ?w1),
             trace := trace ?w1 @ map (DeleteBlob (container_name (info ?w1))) ?ns\<rparr>"
  have list: "list_blobs (container_name (info w)) (?base @ ''/'') 50000 w = (Inr ?ns, ?w1)"
    using assms(4) by (simp add: list_blobs_def emit_def Let_def)
  have d: "distinct ?ns"
    using assms(5) by (intro distinct_take distinct_filter)
  have s: "set ?ns \<subseteq> fst ` set (blobs ?w1)"
    by (auto dest!: in_set_takeD)
  have del: "delete_blobs ?ns ?w1 = Ok ?w2"
    using assms(4) d s by (intro delete_blobs_ok) simp_all
  obtain u t par where o: "container_url w = Some u" "container_token w = Some t"
      "uploaded_dirs w ?base = Some par"
    using assms(1,2,3) by auto
  show ?thesis
    by (simp add: delete_dir_def Let_def list del o)
qed

lemma delete_dir_present:
  assumes "container_url w \<noteq> None" and "container_token w \<noteq> None"
    and "uploaded_dirs w (basename (abspath (cwd w) (normpath dir_path))) \<noteq> None"
    and "container w = Present" and "distinct (map fst (blobs w))"
    and "put_error w ''uploaded_dirs.dat'' = None"
  shows "\<exists>w'. delete_dir dir_path ignore_not_exist w = Ok w'
           \<and> uploaded_dirs w'
               = (uploaded_dirs w)(basename (abspath (cwd w) (normpath dir_path)) := None)
           \<and> map_of (blobs w')
               = (\<lambda>n. if n = ''uploaded_dirs.dat''
                         then Some (pickle_dumps w
                                (uploaded_dirs w'))
                       else if n \<in> set (take 50000 (filter
                                 (prefix (basename (abspath (cwd w) (normpath dir_path)) @ ''/''))
                                 (map fst (blobs w))))
                         then None
                       else map_of (blobs w) n)"
proof -
  let ?base = "basename (abspath (cwd w) (normpath dir_path))"
  let ?ns = "take 50000 (filter (prefix (?base @ ''/'')) (map fst (blobs w)))"
  let ?w3 = "w\<lparr>blobs := fold AList.delete ?ns (blobs w),
                trace := trace w @ ListBlobs (container_name (info w)) (?base @ ''/'') 50000
                           # map (DeleteBlob (container_name (info w))) ?ns,
                uploaded_dirs := (uploaded_dirs w)(?base := None)\<rparr>"
  have run: "delete_dir dir_path ignore_not_exist w = persist_uploaded_dirs ?w3"
    using assms(1-5) by (rule delete_dir_reaches_persist)
  have per: "persist_uploaded_dirs ?w3
           = Ok (?w3\<lparr>files := AList.delete (local_path ?w3 ''uploaded_dirs.dat'') (files ?w3),
                   blobs := AList.update ''uploaded_dirs.dat'' (pickle_dumps ?w3 (uploaded_dirs ?w3))
                              (blobs ?w3),
                   trace := trace ?w3 @ [CreateBlobFromPath (container_name (info ?w3))
                                         ''uploaded_dirs.dat'' ''uploaded_dirs.dat'']\<rparr>)"
    using assms(4,6) by (intro persist_uploaded_dirs_ok) simp_all
  show ?thesis
    unfolding run per
    by (simp add: update_conv' map_of_fold_delete fun_eq_iff)
qed

lemma ledger_blob_not_under: "\<not> prefix (b @ ''/'') ''uploaded_dirs.dat''"
proof
  assume "prefix (b @ ''/'') ''uploaded_dirs.dat''"
  then have "set (b @ ''/'') \<subseteq> set ''uploaded_dirs.dat''" by (rule set_mono_prefix)
  then show False by simp
qed

text \<open>A container of more blobs than one listing returns.\<close>

lemma many_blobs_keys:
  "map fst (many_blobs n) = map (\<lambda>i. ''case1/'' @ replicate i CHR ''x'') [0..<n]"
  by (simp add: many_blobs_def comp_def)

lemma many_blobs_distinct: "distinct (map fst (many_blobs n))"
proof -
  have "inj (\<lambda>i. ''case1/'' @ replicate i CHR ''x'')"
  proof (rule injI)
    fix i j :: nat
    assume "''case1/'' @ replicate i CHR ''x'' = ''case1/'' @ replicate j CHR ''x''"
    then have "length (replicate i CHR ''x'') = length (replicate j CHR ''x'')" by simp
    then show "i = j" by simp
  qed
  then show ?thesis
    unfolding many_blobs_keys by (simp add: distinct_map inj_on_def)
qed

lemma many_blobs_listed:
  "m \<le> n \<Longrightarrow>
   take m (filter (prefix ''case1/'') (map fst (many_blobs n)))
     = map (\<lambda>i. ''case1/'' @ replicate i CHR ''x'') [0..<m]"
  unfolding many_blobs_keys by (simp add: take_map)

lemma many_blobs_last:
  "m < n \<Longrightarrow> map_of (many_blobs n) (''case1/'' @ replicate m CHR ''x'') = Some []"
  using many_blobs_distinct [of n]
  by (intro map_of_is_SomeI) (auto simp add: many_blobs_def)

lemma many_blobs_not_listed:
  "''case1/'' @ replicate m CHR ''x''
     \<notin> set (map (\<lambda>i. ''case1/'' @ replicate i CHR ''x'') [0..<m])"
proof
  assume "''case1/'' @ replicate m CHR ''x''
            \<in> set (map (\<lambda>i. ''case1/'' @ replicate i CHR ''x'') [0..<m])"
  then obtain i where "i < m" and "''case1/'' @ replicate m CHR ''x'' = ''case1/'' @ replicate i CHR ''x''"
    by auto
  then have "length (replicate m CHR ''x'') = length (replicate i CHR ''x'')" and "i < m"
    by simp_all
  then show False by simp
qed

text \<open>
  C7, as the code has it. For a case in the ledger, with an open session on a present
  container that accepts the ledger blob, \<open>_delete_dir\<close> returns; it has deleted every
  blob that \<open>list_blobs\<close> returned for the prefix, which are the first 50000 at most;
  the entry is gone from \<open>uploaded_dirs\<close>, and the blob \<open>uploaded_dirs.dat\<close> holds
  the pickled new ledger. When at most 50000 blobs are stored under the prefix, none is
  left; blobs outside the prefix are untouched.
\<close>

theorem purge_directory:
  assumes "container_url w \<noteq> None" and "container_token w \<noteq> None"
    and "uploaded_dirs w (basename (abspath (cwd w) (normpath dir_path))) \<noteq> None"
    and "container w = Present" and "distinct (map fst (blobs w))"
    and "put_error w ''uploaded_dirs.dat'' = None"
  shows "\<exists>w'. delete_dir dir_path ignore_not_exist w = Ok w'
           \<and> uploaded_dirs w'
               = (uploaded_dirs w)(basename (abspath (cwd w) (normpath dir_path)) := None)
           \<and> map_of (blobs w') ''uploaded_dirs.dat'' = Some (pickle_dumps w (uploaded_dirs w'))
           \<and> (\<forall>n \<in> set (take 50000 (filter
                          (prefix (basename (abspath (cwd w) (normpath dir_path)) @ ''/''))
                          (map fst (blobs w)))). map_of (blobs w') n = None)
           \<and> (length (filter (prefix (basename (abspath (cwd w) (normpath dir_path)) @ ''/''))
                        (map fst (blobs w))) \<le> 50000 \<longrightarrow>
                (\<forall>n. prefix (basename (abspath (cwd w) (normpath dir_path)) @ ''/'') n \<longrightarrow>
                       map_of (blobs w') n = None))
           \<and> (\<forall>n. \<not> prefix (basename (abspath (cwd w) (normpath dir_path)) @ ''/'') n \<longrightarrow>
                    n \<noteq> ''uploaded_dirs.dat'' \<longrightarrow> map_of (blobs w') n = map_of (blobs w) n)"
proof -
  let ?pre = "basename (abspath (cwd w) (normpath dir_path)) @ ''/''"
  let ?all = "filter (prefix ?pre) (map fst (blobs w))"
  obtain w' where w': "delete_dir dir_path ignore_not_exist w = Ok w'"
      "uploaded_dirs w'
         = (uploaded_dirs w)(basename (abspath (cwd w) (normpath dir_path)) := None)"
      "map_of (blobs w')
         = (\<lambda>n. if n = ''uploaded_dirs.dat'' then Some (pickle_dumps w (uploaded_dirs w'))
                 else if n \<in> set (take 50000 ?all) then None
                 else map_of (blobs w) n)"
    using delete_dir_present [OF assms] by blast
  have a: "map_of (blobs w') ''uploaded_dirs.dat'' = Some (pickle_dumps w (uploaded_dirs w'))"
    by (simp add: w'(3))
  have b: "\<forall>n \<in> set (take 50000 ?all). map_of (blobs w') n = None"
  proof
    fix n assume n: "n \<in> set (take 50000 ?all)"
    then have "n \<in> set ?all" by (rule in_set_takeD)
    then have "n \<noteq> ''uploaded_dirs.dat''" using ledger_blob_not_under by auto
    with n show "map_of (blobs w') n = None" by (simp add: w'(3))
  qed
  have c: "map_of (blobs w') n = None" if "length ?all \<le> 50000" and "prefix ?pre n" for n
  proof (cases "n \<in> set ?all")
    case True
    with that(1) b show ?thesis by simp
  next
    case False
    with that(2) have "n \<notin> fst ` set (blobs w)" by auto
    then have "map_of (blobs w) n = None" by (simp add: map_of_eq_None_iff)
    moreover from that(2) have "n \<noteq> ''uploaded_dirs.dat''" using ledger_blob_not_under by auto
    ultimately show ?thesis by (simp add: w'(3))
  qed
  have d: "map_of (blobs w') n = map_of (blobs w) n"
    if "\<not> prefix ?pre n" and "n \<noteq> ''uploaded_dirs.dat''" for n
  proof -
    from that(1) have "n \<notin> set (take 50000 ?all)" by (auto dest: in_set_takeD)
    with that(2) show ?thesis by (simp add: w'(3))
  qed
  show ?thesis
    using w'(1,2) a b c d by blast
qed

theorem purge_directory_witness:
  "container_url (example_world\<lparr>uploaded_dirs := [''case1'' \<mapsto> ''/data''],
       blobs := [(''case1/a.txt'', ''A''), (''case2/c.txt'', ''C'')]\<rparr>) \<noteq> None
   \<and> container_token (example_world\<lparr>uploaded_dirs := [''case1'' \<mapsto> ''/data''],
       blobs := [(''case1/a.txt'', ''A''), (''case2/c.txt'', ''C'')]\<rparr>) \<noteq> None
   \<and> uploaded_dirs (example_world\<lparr>uploaded_dirs := [''case1'' \<mapsto> ''/data''],
       blobs := [(''case1/a.txt'', ''A''), (''case2/c.txt'', ''C'')]\<rparr>)
         (basename (abspath ''/home/user'' (normpath ''/data/case1''))) \<noteq> None
   \<and> container (example_world\<lparr>uploaded_dirs := [''case1'' \<mapsto> ''/data''],
       blobs := [(''case1/a.txt'', ''A''), (''case2/c.txt'', ''C'')]\<rparr>) = Present
   \<and> distinct (map fst [(''case1/a.txt'', ''A''), (''case2/c.txt'', ''C'')])
   \<and> put_error (example_world\<lparr>uploaded_dirs := [''case1'' \<mapsto> ''/data''],
       blobs := [(''case1/a.txt'', ''A''), (''case2/c.txt'', ''C'')]\<rparr>) ''uploaded_dirs.dat'' = None
   \<and> length (filter (prefix ''case1/'') (map fst [(''case1/a.txt'', ''A''), (''case2/c.txt'', ''C'')]))
        \<le> 50000
   \<and> (\<exists>w'. delete_dir ''/data/case1'' True
              (example_world\<lparr>uploaded_dirs := [''case1'' \<mapsto> ''/data''],
                 blobs := [(''case1/a.txt'', ''A''), (''case2/c.txt'', ''C'')]\<rparr>) = Ok w'
          \<and> uploaded_dirs w' ''case1'' = None
          \<and> map_of (blobs w') ''uploaded_dirs.dat'' = Some ''pickled''
          \<and> map_of (blobs w') ''case1/a.txt'' = None
          \<and> map_of (blobs w') ''case2/c.txt'' = Some ''C'')"
proof -
  let ?w = "example_world\<lparr>uploaded_dirs := [''case1'' \<mapsto> ''/data''],
              blobs := [(''case1/a.txt'', ''A''), (''case2/c.txt'', ''C'')]\<rparr>"
  have b: "basename (abspath ''/home/user'' (normpath ''/data/case1'')) = ''case1''"
    by code_simp
  have c: "cwd ?w = ''/home/user''"
    by (simp add: example_world_def)
  have base: "basename (abspath (cwd ?w) (normpath ''/data/case1'')) = ''case1''"
    unfolding c by (rule b)
  have h: "container_url ?w \<noteq> None" "container_token ?w \<noteq> None"
      "uploaded_dirs ?w (basename (abspath (cwd ?w) (normpath ''/data/case1''))) \<noteq> None"
      "container ?w = Present" "distinct (map fst (blobs ?w))"
      "put_error ?w ''uploaded_dirs.dat'' = None"
    unfolding base by (simp_all add: example_world_def)
  have few: "length (filter (prefix ''case1/'') (map fst [(''case1/a.txt'', ''A''), (''case2/c.txt'', ''C'')]))
               \<le> 50000"
    by simp
  have d: "pickle_dumps example_world = (\<lambda>m. ''pickled'')"
    by (simp add: example_world_def)
  from purge_directory [OF h, of True] obtain w' where
    "delete_dir ''/data/case1'' True ?w = Ok w'" and
    "uploaded_dirs w'
       = (uploaded_dirs ?w)(basename (abspath (cwd ?w) (normpath ''/data/case1'')) := None)" and
    "map_of (blobs w') ''uploaded_dirs.dat'' = Some (pickle_dumps ?w (uploaded_dirs w'))" and
    "length (filter (prefix (basename (abspath (cwd ?w) (normpath ''/data/case1'')) @ ''/''))
                        (map fst (blobs ?w))) \<le> 50000 \<longrightarrow>
                (\<forall>n. prefix (basename (abspath (cwd ?w) (normpath ''/data/case1'')) @ ''/'') n \<longrightarrow>
                       map_of (blobs w') n = None)" and
    "\<forall>n. \<not> prefix (basename (abspath (cwd ?w) (normpath ''/data/case1'')) @ ''/'') n \<longrightarrow>
                    n \<noteq> ''uploaded_dirs.dat'' \<longrightarrow> map_of (blobs w') n = map_of (blobs ?w) n"
    by blast
  then have "delete_dir ''/data/case1'' True ?w = Ok w'
          \<and> uploaded_dirs w' ''case1'' = None
          \<and> map_of (blobs w') ''uploaded_dirs.dat'' = Some ''pickled''
          \<and> map_of (blobs w') ''case1/a.txt'' = None
          \<and> map_of (blobs w') ''case2/c.txt'' = Some ''C''"
    unfolding base by (simp add: d)
  then show ?thesis
    using h few unfolding c by (simp add: b)
qed

text \<open>With 50001 blobs under the prefix, one is left after the purge.\<close>

theorem purge_beyond_listing_counterexample:
  "\<exists>w'. delete_dir ''/data/case1'' True
           (example_world\<lparr>uploaded_dirs := [''case1'' \<mapsto> ''/data''], blobs := many_blobs 50001\<rparr>)
         = Ok w'
       \<and> uploaded_dirs w' ''case1'' = None
       \<and> prefix ''case1/'' (''case1/'' @ replicate 50000 CHR ''x'')
       \<and> map_of (blobs w') (''case1/'' @ replicate 50000 CHR ''x'') = Some []"
proof -
  let ?w = "example_world\<lparr>uploaded_dirs := [''case1'' \<mapsto> ''/data''], blobs := many_blobs 50001\<rparr>"
  let ?last = "''case1/'' @ replicate 50000 CHR ''x''"
  have b: "basename (abspath ''/home/user'' (normpath ''/data/case1'')) = ''case1''"
    by code_simp
  have c: "cwd ?w = ''/home/user''"
    by (simp add: example_world_def)
  have base: "basename (abspath (cwd ?w) (normpath ''/data/case1'')) = ''case1''"
    unfolding c by (rule b)
  have h: "container_url ?w \<noteq> None" "container_token ?w \<noteq> None"
      "uploaded_dirs ?w (basename (abspath (cwd ?w) (normpath ''/data/case1''))) \<noteq> None"
      "container ?w = Present" "distinct (map fst (blobs ?w))"
      "put_error ?w ''uploaded_dirs.dat'' = None"
    unfolding base by (simp_all add: example_world_def many_blobs_distinct)
  obtain w' where w': "delete_dir ''/data/case1'' True ?w = Ok w'"
      "uploaded_dirs w'
         = (uploaded_dirs ?w)(basename (abspath (cwd ?w) (normpath ''/data/case1'')) := None)"
      "map_of (blobs w')
         = (\<lambda>n. if n = ''uploaded_dirs.dat'' then Some (pickle_dumps ?w (uploaded_dirs w'))
                 else if n \<in> set (take 50000 (filter
                            (prefix (basename (abspath (cwd ?w) (normpath ''/data/case1'')) @ ''/''))
                            (map fst (blobs ?w))))
                   then None
                 else map_of (blobs ?w) n)"
    using delete_dir_present [OF h] by blast
  have listed: "take 50000 (filter (prefix ''case1/'') (map fst (many_blobs 50001)))
                  = map (\<lambda>i. ''case1/'' @ replicate i CHR ''x'') [0..<50000]"
    by (rule many_blobs_listed) simp
  have notin: "?last \<notin> set (take 50000 (filter (prefix ''case1/'') (map fst (many_blobs 50001))))"
    unfolding listed by (rule many_blobs_not_listed)
  have there: "map_of (many_blobs 50001) ?last = Some []"
    by (rule many_blobs_last) simp
  have neq: "?last \<noteq> ''uploaded_dirs.dat''"
    by simp
  have "map_of (blobs w') ?last = map_of (blobs ?w) ?last"
    unfolding w'(3) base using notin neq by simp
  then have "map_of (blobs w') ?last = Some []"
    using there by simp
  moreover have "uploaded_dirs w' ''case1'' = None"
    unfolding w'(2) base by simp
  ultimately show ?thesis
    using w'(1) by simp
qed

subsection \<open>The ledger in memory and in the container\<close>

text \<open>What the upload loop leaves alone.\<close>

lemma upload_file_keeps:
  assumes "upload_file dir_path df w = Ok w'"
  shows "uploaded_dirs w' = uploaded_dirs w \<and> put_error w' = put_error w
       \<and> container w' = container w \<and> files w' = files w \<and> cwd w' = cwd w
       \<and> info w' = info w \<and> pickle_dumps w' = pickle_dumps w
       \<and> container_url w' = container_url w \<and> container_token w' = container_token w
       \<and> (\<forall>n. put_error w n \<noteq> None \<longrightarrow> map_of (blobs w') n = map_of (blobs w) n)"
  using assms
  by (auto simp add: upload_file_def create_blob_from_path_def emit_def Let_def update_conv'
        split: sum.splits option.splits if_splits)

lemma upload_files_keeps:
  "upload_files dir_path dfs w = Ok w' \<Longrightarrow>
   uploaded_dirs w' = uploaded_dirs w \<and> put_error w' = put_error w
   \<and> container w' = container w \<and> files w' = files w \<and> cwd w' = cwd w
   \<and> info w' = info w \<and> pickle_dumps w' = pickle_dumps w
   \<and> container_url w' = container_url w \<and> container_token w' = container_token w
   \<and> (\<forall>n. put_error w n \<noteq> None \<longrightarrow> map_of (blobs w') n = map_of (blobs w) n)"
proof (induction dfs arbitrary: w)
  case Nil
  then show ?case by auto
next
  case (Cons df dfs)
  from Cons.prems obtain w1 where 1: "upload_file dir_path df w = Ok w1"
    and 2: "upload_files dir_path dfs w1 = Ok w'"
    by (auto split: outcome.splits)
  show ?case
    using upload_file_keeps [OF 1] Cons.IH [OF 2] by simp
qed

text \<open>
  C10. The ledger is changed in memory before it is written to the container, and a
  failed write undoes nothing. In \<open>_upload_dir\<close>, once the data files are stored, and
  in \<open>_delete_dir\<close>, once the listed blobs are deleted: when the blob service
  refuses the blob \<open>uploaded_dirs.dat\<close> with an error, the method raises that error,
  its last request being that upload; \<open>uploaded_dirs\<close> has the new entry (or has
  lost the entry), the ledger blob in the container is the one from before the call,
  and the local file \<open>uploaded_dirs.dat\<close> is still there with the pickled new ledger.
\<close>

theorem ledger_write_not_atomic:
  assumes "uploaded_dirs w (basename (abspath (cwd w) (normpath dir_path))) = None"
    and "container_url w \<noteq> None" and "container_token w \<noteq> None"
    and "upload_files (abspath (cwd w) (normpath dir_path))
           (os_walk (abspath (cwd w) (normpath dir_path)) w) w = Ok w1"
    and "container w = Present" and "put_error w ''uploaded_dirs.dat'' = Some e"
    and "container_url v \<noteq> None" and "container_token v \<noteq> None"
    and "uploaded_dirs v (basename (abspath (cwd v) (normpath dir_path'))) \<noteq> None"
    and "container v = Present" and "distinct (map fst (blobs v))"
    and "put_error v ''uploaded_dirs.dat'' = Some e'"
  shows "(\<exists>w'. upload_dir dir_path w = Raise e w'
            \<and> uploaded_dirs w'
                = (uploaded_dirs w)(basename (abspath (cwd w) (normpath dir_path))
                     \<mapsto> dirname (abspath (cwd w) (normpath dir_path)))
            \<and> last (trace w') = CreateBlobFromPath (container_name (info w))
                                   ''uploaded_dirs.dat'' ''uploaded_dirs.dat''
            \<and> map_of (blobs w') ''uploaded_dirs.dat'' = map_of (blobs w) ''uploaded_dirs.dat''
            \<and> map_of (files w') (local_path w ''uploaded_dirs.dat'')
                = Some (pickle_dumps w (uploaded_dirs w')))
       \<and> (\<exists>v'. delete_dir dir_path' ignore_not_exist v = Raise e' v'
            \<and> uploaded_dirs v'
                = (uploaded_dirs v)(basename (abspath (cwd v) (normpath dir_path')) := None)
            \<and> last (trace v') = CreateBlobFromPath (container_name (info v))
                                   ''uploaded_dirs.dat'' ''uploaded_dirs.dat''
            \<and> map_of (blobs v') ''uploaded_dirs.dat'' = map_of (blobs v) ''uploaded_dirs.dat''
            \<and> map_of (files v') (local_path v ''uploaded_dirs.dat'')
                = Some (pickle_dumps v (uploaded_dirs v')))"
proof -
  let ?D = "abspath (cwd w) (normpath dir_path)"
  let ?w2 = "w1\<lparr>uploaded_dirs := (uploaded_dirs w1)(basename ?D \<mapsto> dirname ?D)\<rparr>"
  note k = upload_files_keeps [OF assms(4)]
  obtain u t where o: "container_url w = Some u" "container_token w = Some t"
    using assms(2,3) by auto
  have run: "upload_dir dir_path w = persist_uploaded_dirs ?w2"
    using assms(1) by (simp add: upload_dir_def Let_def o assms(4))
  have per: "persist_uploaded_dirs ?w2
           = Raise e
               (?w2\<lparr>files := AList.update (local_path ?w2 ''uploaded_dirs.dat'')
                              (pickle_dumps ?w2 (uploaded_dirs ?w2)) (files ?w2),
                  trace := trace ?w2 @ [CreateBlobFromPath (container_name (info ?w2))
                                        ''uploaded_dirs.dat'' ''uploaded_dirs.dat'']\<rparr>)"
    using assms(5,6) k by (intro persist_uploaded_dirs_refused) simp_all
  have stage: "\<exists>w'. upload_dir dir_path w = Raise e w'
            \<and> uploaded_dirs w' = (uploaded_dirs w)(basename ?D \<mapsto> dirname ?D)
            \<and> last (trace w') = CreateBlobFromPath (container_name (info w))
                                   ''uploaded_dirs.dat'' ''uploaded_dirs.dat''
            \<and> map_of (blobs w') ''uploaded_dirs.dat'' = map_of (blobs w) ''uploaded_dirs.dat''
            \<and> map_of (files w') (local_path w ''uploaded_dirs.dat'')
                = Some (pickle_dumps w (uploaded_dirs w'))"
    unfolding run per using k assms(6)
    by (simp add: update_conv' local_path_def)
  let ?base = "basename (abspath (cwd v) (normpath dir_path'))"
  let ?v3 = "v\<lparr>blobs := fold AList.delete
                             (take 50000 (filter (prefix (?base @ ''/'')) (map fst (blobs v))))
                             (blobs v),
                  trace := trace v
                    @ ListBlobs (container_name (info v)) (?base @ ''/'') 50000
                    # map (DeleteBlob (container_name (info v)))
                        (take 50000 (filter (prefix (?base @ ''/'')) (map fst (blobs v)))),
                  uploaded_dirs := (uploaded_dirs v)(?base := None)\<rparr>"
  have run': "delete_dir dir_path' ignore_not_exist v = persist_uploaded_dirs ?v3"
    using assms(7-11) by (rule delete_dir_reaches_persist)
  have per': "persist_uploaded_dirs ?v3
           = Raise e'
               (?v3\<lparr>files := AList.update (local_path ?v3 ''uploaded_dirs.dat'')
                              (pickle_dumps ?v3 (uploaded_dirs ?v3)) (files ?v3),
                  trace := trace ?v3 @ [CreateBlobFromPath (container_name (info ?v3))
                                        ''uploaded_dirs.dat'' ''uploaded_dirs.dat'']\<rparr>)"
    using assms(10,12) by (intro persist_uploaded_dirs_refused) simp_all
  have nl: "''uploaded_dirs.dat''
              \<notin> set (take 50000 (filter (prefix (?base @ ''/'')) (map fst (blobs v))))"
    using ledger_blob_not_under by (auto dest: in_set_takeD)
  have purge: "\<exists>v'. delete_dir dir_path' ignore_not_exist v = Raise e' v'
            \<and> uploaded_dirs v' = (uploaded_dirs v)(?base := None)
            \<and> last (trace v') = CreateBlobFromPath (container_name (info v))
                                   ''uploaded_dirs.dat'' ''uploaded_dirs.dat''
            \<and> map_of (blobs v') ''uploaded_dirs.dat'' = map_of (blobs v) ''uploaded_dirs.dat''
            \<and> map_of (files v') (local_path v ''uploaded_dirs.dat'')
                = Some (pickle_dumps v (uploaded_dirs v'))"
    unfolding run' per' using nl
    by (simp add: update_conv' local_path_def map_of_fold_delete)
  from stage purge show ?thesis by blast
qed


theorem ledger_write_not_atomic_witness:
  "(\<exists>w'. upload_dir ''/data/case1'' (example_world\<lparr>put_error := refuse_ledger\<rparr>)
            = Raise (AzureException ''ServerBusy'') w'
        \<and> uploaded_dirs w' = [''case1'' \<mapsto> ''/data'']
        \<and> map_of (blobs w') ''uploaded_dirs.dat'' = None
        \<and> map_of (files w') ''/home/user/uploaded_dirs.dat'' = Some ''pickled'')
   \<and> (\<exists>v'. delete_dir ''/data/case1'' True
              (example_world\<lparr>uploaded_dirs := [''case1'' \<mapsto> ''/data''],
                 blobs := [(''case1/a.txt'', ''A''), (''uploaded_dirs.dat'', ''old'')],
                 put_error := refuse_ledger\<rparr>)
            = Raise (AzureException ''ServerBusy'') v'
        \<and> uploaded_dirs v' = Map.empty
        \<and> map_of (blobs v') ''uploaded_dirs.dat'' = Some ''old''
        \<and> map_of (files v') ''/home/user/uploaded_dirs.dat'' = Some ''pickled'')"
proof -
  let ?w = "example_world\<lparr>put_error := refuse_ledger\<rparr>"
  let ?v = "example_world\<lparr>uploaded_dirs := [''case1'' \<mapsto> ''/data''],
                 blobs := [(''case1/a.txt'', ''A''), (''uploaded_dirs.dat'', ''old'')],
                 put_error := refuse_ledger\<rparr>"
  let ?w1 = "?w\<lparr>blobs := [(''case1/a.txt'', ''A''), (''case1/sub/b.txt'', ''B'')],
                trace := [CreateBlobFromPath ''mission'' ''case1/a.txt'' ''/data/case1/a.txt'',
                          CreateBlobFromPath ''mission'' ''case1/sub/b.txt''
                            ''/data/case1/sub/b.txt'']\<rparr>"
  have D: "abspath ''/home/user'' (normpath ''/data/case1'') = ''/data/case1''"
    by code_simp
  have B: "basename ''/data/case1'' = ''case1''" and P: "dirname ''/data/case1'' = ''/data''"
    by code_simp+
  have L: "path_join ''/home/user'' ''uploaded_dirs.dat'' = ''/home/user/uploaded_dirs.dat''"
    by code_simp
  have walk: "map (\<lambda>p. (dirname p, basename p))
                (filter (under ''/data/case1'') [''/data/case1/a.txt'', ''/data/case1/sub/b.txt''])
              = [(''/data/case1'', ''a.txt''), (''/data/case1/sub'', ''b.txt'')]"
    by code_simp
  have fp: "path_join (abspath ''/home/user'' ''/data/case1'') ''a.txt'' = ''/data/case1/a.txt''"
      "path_join (abspath ''/home/user'' ''/data/case1/sub'') ''b.txt'' = ''/data/case1/sub/b.txt''"
    by code_simp+
  have rp: "relpath ''/home/user'' ''/data/case1/a.txt'' ''/data'' = Inr ''case1/a.txt''"
      "relpath ''/home/user'' ''/data/case1/sub/b.txt'' ''/data'' = Inr ''case1/sub/b.txt''"
    by code_simp+
  have i: "cwd example_world = ''/home/user''"
      "files example_world = [(''/data/case1/a.txt'', ''A''), (''/data/case1/sub/b.txt'', ''B'')]"
      "container example_world = Present" "blobs example_world = []"
      "trace example_world = []" "container_name (info example_world) = ''mission''"
      "uploaded_dirs example_world = Map.empty"
      "container_url example_world = Some ''https://acct/mission?sig''"
      "container_token example_world = Some ''sig''"
      "pickle_dumps example_world = (\<lambda>m. ''pickled'')"
    by (simp_all add: example_world_def example_info_def)
  have h1: "uploaded_dirs ?w (basename (abspath (cwd ?w) (normpath ''/data/case1''))) = None"
    by (simp add: i)
  have h2: "container_url ?w \<noteq> None" and h3: "container_token ?w \<noteq> None"
    by (simp_all add: i)
  have mf: "map fst (files ?w) = [''/data/case1/a.txt'', ''/data/case1/sub/b.txt'']"
    by (simp add: i)
  have ow: "os_walk ''/data/case1'' ?w
              = [(''/data/case1'', ''a.txt''), (''/data/case1/sub'', ''b.txt'')]"
    unfolding os_walk_def mf by (rule walk)
  have uf: "upload_files ''/data/case1''
              [(''/data/case1'', ''a.txt''), (''/data/case1/sub'', ''b.txt'')] ?w = Ok ?w1"
    by (simp add: i P upload_file_def fp rp create_blob_from_path_def
          local_path_def isabs_def refuse_ledger_def emit_def)
  have h4: "upload_files (abspath (cwd ?w) (normpath ''/data/case1''))
              (os_walk (abspath (cwd ?w) (normpath ''/data/case1'')) ?w) ?w = Ok ?w1"
    using uf by (simp add: i D ow)
  have h5: "container ?w = Present"
    and h6: "put_error ?w ''uploaded_dirs.dat'' = Some (AzureException ''ServerBusy'')"
    by (simp_all add: i refuse_ledger_def)
  have g1: "container_url ?v \<noteq> None" and g2: "container_token ?v \<noteq> None"
    and g3: "uploaded_dirs ?v (basename (abspath (cwd ?v) (normpath ''/data/case1''))) \<noteq> None"
    and g4: "container ?v = Present" and g5: "distinct (map fst (blobs ?v))"
    and g6: "put_error ?v ''uploaded_dirs.dat'' = Some (AzureException ''ServerBusy'')"
    by (simp_all add: i D B refuse_ledger_def)
  show ?thesis
    using ledger_write_not_atomic [OF h1 h2 h3 h4 h5 h6 g1 g2 g3 g4 g5 g6, of True]
    by (simp add: i D B P L local_path_def isabs_def) blast
qed

subsection \<open>Paths\<close>

lemma split_sep_not_Nil [simp]: "split_sep s \<noteq> []"
  by (induction s) (auto split: list.splits)

lemma split_sep_append_sep: "split_sep (a @ CHR ''/'' # r) = split_sep a @ split_sep r"
  by (induction a) (auto split: list.splits)

lemma split_sep_no_sep: "CHR ''/'' \<notin> set c \<Longrightarrow> split_sep c = [c]"
  by (induction c) auto

lemma split_sep_parts: "c \<in> set (split_sep s) \<Longrightarrow> CHR ''/'' \<notin> set c"
  by (induction s arbitrary: c) (auto split: list.splits if_splits)

lemma join_sep_Cons: "join_sep (c # cs) = c @ concat (map ((#) CHR ''/'') cs)"
  by (induction cs arbitrary: c) simp_all

lemma join_sep_append:
  "xs \<noteq> [] \<Longrightarrow> ys \<noteq> [] \<Longrightarrow> join_sep (xs @ ys) = join_sep xs @ CHR ''/'' # join_sep ys"
  by (cases xs; cases ys) (simp_all add: join_sep_Cons)

lemma split_join_sep:
  "cs \<noteq> [] \<Longrightarrow> \<forall>c \<in> set cs. CHR ''/'' \<notin> set c \<Longrightarrow> split_sep (join_sep cs) = cs"
proof (induction cs rule: join_sep.induct)
  case (3 x y zs)
  then show ?case by (simp add: split_sep_append_sep split_sep_no_sep)
qed (simp_all add: split_sep_no_sep)

lemma join_split_sep: "join_sep (split_sep s) = s"
proof (induction s)
  case Nil
  then show ?case by simp
next
  case (Cons c s)
  obtain h t where ht: "split_sep s = h # t" by (cases "split_sep s") auto
  with Cons show ?case by (cases t) (auto simp add: join_sep_Cons)
qed

lemma split_sep_render:
  "\<forall>c \<in> set cs. CHR ''/'' \<notin> set c \<Longrightarrow>
   split_sep (render cs) = [] # (if cs = [] then [[]] else cs)"
  by (simp add: render_def split_join_sep)

lemma components_render:
  "\<forall>c \<in> set cs. valid_comp c \<Longrightarrow> components (render cs) = cs"
proof -
  assume v: "\<forall>c \<in> set cs. valid_comp c"
  then have "filter (\<lambda>x. x \<noteq> []) cs = cs" by (auto simp add: valid_comp_def filter_id_conv)
  with v show ?thesis by (simp add: components_def split_sep_render valid_comp_def)
qed

lemma is_normal_valid:
  assumes "is_normal p"
  shows "\<forall>c \<in> set (components p). valid_comp c" and "p = render (components p)"
  using assms by (auto simp add: is_normal_def valid_comp_def components_def dest: split_sep_parts)

lemma is_normal_render: "\<forall>c \<in> set cs. valid_comp c \<Longrightarrow> is_normal (render cs)"
  by (simp add: is_normal_def components_render) (auto simp add: valid_comp_def)

text \<open>\<open>normpath\<close> and \<open>abspath\<close> leave a normal path as it is.\<close>

lemma foldl_norm_step:
  "\<forall>c \<in> set cs. valid_comp c \<Longrightarrow> foldl (norm_step True) acc cs = acc @ cs"
  by (induction cs arbitrary: acc) (simp_all add: norm_step_def valid_comp_def)

lemma render_not_double_slash:
  assumes "\<forall>c \<in> set cs. valid_comp c"
  shows "\<not> prefix ''//'' (render cs)"
proof (cases cs)
  case Nil
  then show ?thesis by (simp add: render_def)
next
  case (Cons a list)
  with assms obtain x xs where "a = x # xs" and "x \<noteq> CHR ''/''"
    by (cases a) (auto simp add: valid_comp_def)
  with Cons show ?thesis by (simp add: render_def join_sep_Cons)
qed

lemma normpath_render:
  assumes "\<forall>c \<in> set cs. valid_comp c"
  shows "normpath (render cs) = render cs"
proof -
  have v: "\<forall>c \<in> set cs. CHR ''/'' \<notin> set c" using assms by (simp add: valid_comp_def)
  have p: "prefix ''/'' (render cs)" by (simp add: render_def)
  have f: "foldl (norm_step True) [] (split_sep (render cs)) = cs"
    using assms by (simp add: split_sep_render [OF v] norm_step_def foldl_norm_step)
  show ?thesis
    using render_not_double_slash [OF assms] p
    by (simp add: normpath_def f Let_def) (simp add: render_def)
qed

lemma abspath_render:
  "\<forall>c \<in> set cs. valid_comp c \<Longrightarrow> abspath d (render cs) = render cs"
  by (simp add: abspath_def isabs_def normpath_render) (simp add: render_def)

lemma abspath_normpath_render:
  "\<forall>c \<in> set cs. valid_comp c \<Longrightarrow> abspath d (normpath (render cs)) = render cs"
  by (simp add: normpath_render abspath_render)


text \<open>The last component, the path without it, and joining one more.\<close>

lemma render_snoc:
  "render (cs @ [b]) = (if cs = [] then [] else render cs) @ CHR ''/'' # b"
  by (cases cs) (simp_all add: render_def join_sep_Cons)

lemma render_last:
  assumes "\<forall>c \<in> set cs. valid_comp c" and "cs \<noteq> []"
  shows "last (render cs) \<noteq> CHR ''/''"
proof -
  from assms(2) obtain cs' b where cs: "cs = cs' @ [b]" by (metis rev_exhaust)
  with assms(1) have "b \<noteq> []" and "CHR ''/'' \<notin> set b" by (simp_all add: valid_comp_def)
  then have "last b \<noteq> CHR ''/''" by (metis last_in_set)
  with \<open>b \<noteq> []\<close> show ?thesis unfolding cs render_snoc by simp
qed

lemma basename_snoc:
  assumes "CHR ''/'' \<notin> set b"
  shows "basename (x @ CHR ''/'' # b) = b"
proof -
  have "takeWhile (\<lambda>c. c \<noteq> CHR ''/'') (rev b @ CHR ''/'' # rev x)
          = rev b @ takeWhile (\<lambda>c. c \<noteq> CHR ''/'') (CHR ''/'' # rev x)"
    using assms by (intro takeWhile_append2) auto
  then show ?thesis by (simp add: basename_def)
qed

lemma head_snoc:
  assumes "CHR ''/'' \<notin> set b"
  shows "rev (dropWhile (\<lambda>c. c \<noteq> CHR ''/'') (rev (x @ CHR ''/'' # b))) = x @ ''/''"
proof -
  have "dropWhile (\<lambda>c. c \<noteq> CHR ''/'') (rev b @ CHR ''/'' # rev x)
          = dropWhile (\<lambda>c. c \<noteq> CHR ''/'') (CHR ''/'' # rev x)"
    using assms by (intro dropWhile_append2) auto
  then show ?thesis by simp
qed

lemma dirname_snoc:
  assumes "CHR ''/'' \<notin> set b"
  shows "dirname (x @ CHR ''/'' # b)
           = (if x @ ''/'' \<noteq> replicate (length (x @ ''/'')) CHR ''/''
              then rstrip_sep (x @ ''/'') else x @ ''/'')"
  unfolding dirname_def head_snoc [OF assms] Let_def by simp

lemma basename_render:
  "valid_comp b \<Longrightarrow> basename (render (cs @ [b])) = b"
  by (simp add: render_snoc basename_snoc valid_comp_def)

lemma dirname_render:
  assumes "\<forall>c \<in> set cs. valid_comp c" and "valid_comp b"
  shows "dirname (render (cs @ [b])) = render cs"
proof (cases "cs = []")
  case True
  have b: "CHR ''/'' \<notin> set b" using assms(2) by (simp add: valid_comp_def)
  have "dirname ([] @ CHR ''/'' # b) = ''/''"
    unfolding dirname_snoc [OF b] by simp
  with True show ?thesis by (simp add: render_snoc) (simp add: render_def)
next
  case False
  have b: "CHR ''/'' \<notin> set b" using assms(2) by (simp add: valid_comp_def)
  have l: "last (render cs) \<noteq> CHR ''/''" using assms(1) False by (rule render_last)
  have ne: "render cs \<noteq> []" by (simp add: render_def)
  have nall: "render cs @ ''/'' \<noteq> replicate (length (render cs @ ''/'')) CHR ''/''"
  proof
    assume "render cs @ ''/'' = replicate (length (render cs @ ''/'')) CHR ''/''"
    then have "set (render cs @ ''/'') \<subseteq> {CHR ''/''}"
      by (metis set_replicate_conv_if empty_subsetI subset_refl)
    moreover have "last (render cs) \<in> set (render cs @ ''/'')" using ne by simp
    ultimately show False using l by auto
  qed
  have "rev (render cs) \<noteq> []" using ne by simp
  then obtain y ys where r: "rev (render cs) = y # ys" by (cases "rev (render cs)") auto
  then have "y = last (render cs)" by (metis ne hd_rev list.sel(1))
  with l have "dropWhile (\<lambda>c. c = CHR ''/'') (y # ys) = y # ys" by simp
  then have "dropWhile (\<lambda>c. c = CHR ''/'') (rev (render cs)) = rev (render cs)"
    unfolding r .
  then have rs: "rstrip_sep (render cs @ ''/'') = render cs"
    by (simp add: rstrip_sep_def)
  have "dirname (render cs @ CHR ''/'' # b) = render cs"
    unfolding dirname_snoc [OF b] using nall rs by simp
  with False show ?thesis by (simp add: render_snoc)
qed

lemma path_join_render:
  assumes "\<forall>c \<in> set cs. valid_comp c" and "x \<noteq> []" and "hd x \<noteq> CHR ''/''"
  shows "path_join (render cs) x = (if cs = [] then [] else render cs) @ CHR ''/'' # x"
proof -
  from assms(2,3) have np: "\<not> prefix ''/'' x" by (cases x) auto
  show ?thesis
  proof (cases "cs = []")
    case True
    with np show ?thesis by (simp add: path_join_def render_def)
  next
    case False
    with assms(1) have "last (render cs) \<noteq> CHR ''/''" by (intro render_last)
    with np False show ?thesis by (simp add: path_join_def) (simp add: render_def)
  qed
qed

lemma valid_comp_hd: "valid_comp b \<Longrightarrow> b \<noteq> [] \<and> hd b \<noteq> CHR ''/''"
  by (cases b) (auto simp add: valid_comp_def)

lemma path_join_component:
  assumes "\<forall>c \<in> set cs. valid_comp c" and "valid_comp b"
  shows "path_join (render cs) b = render (cs @ [b])"
  using path_join_render [OF assms(1), of b] valid_comp_hd [OF assms(2)]
  by (simp add: render_snoc)

lemma join_sep_first:
  "valid_comp b \<Longrightarrow> join_sep (b # rest) \<noteq> [] \<and> hd (join_sep (b # rest)) \<noteq> CHR ''/''"
  by (cases b) (auto simp add: join_sep_Cons valid_comp_def)

lemma path_join_relative:
  assumes "\<forall>c \<in> set ps. valid_comp c" and "valid_comp b"
  shows "path_join (render ps) (join_sep (b # rest)) = render (ps @ b # rest)"
proof -
  have "path_join (render ps) (join_sep (b # rest))
          = (if ps = [] then [] else render ps) @ CHR ''/'' # join_sep (b # rest)"
    using assms(1) join_sep_first [OF assms(2)] by (intro path_join_render) simp_all
  also have "\<dots> = render (ps @ b # rest)"
    by (cases "ps = []") (simp_all add: render_def join_sep_append del: join_sep.simps(3))
  finally show ?thesis .
qed

text \<open>The path relative to an ancestor.\<close>

lemma commonprefix_append: "commonprefix xs (xs @ ys) = xs"
  by (induction xs) simp_all

lemma foldl_path_join:
  "a \<noteq> [] \<Longrightarrow> last a \<noteq> CHR ''/'' \<Longrightarrow> \<forall>c \<in> set cs. valid_comp c \<Longrightarrow>
   foldl path_join a cs = a @ concat (map ((#) CHR ''/'') cs)"
proof (induction cs arbitrary: a)
  case Nil
  then show ?case by simp
next
  case (Cons c cs)
  from Cons.prems(3) have c: "c \<noteq> []" "CHR ''/'' \<notin> set c" by (simp_all add: valid_comp_def)
  then have "hd c \<noteq> CHR ''/''" by (metis hd_in_set)
  with c have np: "\<not> prefix ''/'' c" by (cases c) auto
  have step: "path_join a c = a @ CHR ''/'' # c"
    using Cons.prems(1,2) np by (simp add: path_join_def)
  have "last (a @ CHR ''/'' # c) \<noteq> CHR ''/''"
    using c by (metis last_in_set last_append last_ConsR list.distinct(1))
  then have "foldl path_join (a @ CHR ''/'' # c) cs = (a @ CHR ''/'' # c) @ concat (map ((#) CHR ''/'') cs)"
    using Cons.prems(3) by (intro Cons.IH) simp_all
  then show ?case by (simp add: step)
qed

lemma path_join_all_components:
  assumes "\<forall>c \<in> set (r # rs). valid_comp c"
  shows "path_join_all r rs = join_sep (r # rs)"
proof -
  from assms have r: "r \<noteq> []" "CHR ''/'' \<notin> set r" by (simp_all add: valid_comp_def)
  then have "last r \<noteq> CHR ''/''" by (metis last_in_set)
  with r assms show ?thesis
    by (simp add: path_join_all_def foldl_path_join join_sep_Cons)
qed

lemma relpath_render:
  assumes "\<forall>c \<in> set (ps @ rest). valid_comp c" and "rest \<noteq> []"
  shows "relpath d (render (ps @ rest)) (render ps) = Inr (join_sep rest)"
proof -
  from assms(1) have vp: "\<forall>c \<in> set ps. valid_comp c" and vr: "\<forall>c \<in> set rest. valid_comp c"
    by simp_all
  have s: "filter (\<lambda>x. x \<noteq> []) (split_sep (abspath d (render ps))) = ps"
    using components_render [OF vp] by (simp add: abspath_render [OF vp] components_def)
  have p: "filter (\<lambda>x. x \<noteq> []) (split_sep (abspath d (render (ps @ rest)))) = ps @ rest"
    using components_render [OF assms(1)] by (simp add: abspath_render [OF assms(1)] components_def)
  obtain r rs where rest: "rest = r # rs" using assms(2) by (cases rest) auto
  have "path_join_all r rs = join_sep (r # rs)"
    using vr unfolding rest by (rule path_join_all_components)
  then show ?thesis
    unfolding relpath_def s p
    by (simp add: commonprefix_append Let_def rest render_def)
qed

subsection \<open>Staging and fetching a case directory\<close>

lemma under_components:
  assumes v: "\<forall>c \<in> set (ps @ [b]). valid_comp c"
    and n: "is_normal k" and u: "under (render (ps @ [b])) k"
  shows "\<exists>rest. rest \<noteq> [] \<and> components k = ps @ b # rest"
proof -
  let ?D = "render (ps @ [b])"
  have vs: "\<forall>c \<in> set (ps @ [b]). CHR ''/'' \<notin> set c" using v by (simp add: valid_comp_def)
  have "last ?D \<noteq> CHR ''/''" using v by (intro render_last) simp_all
  moreover have "?D \<noteq> []" by (simp add: render_def)
  ultimately have "prefix (?D @ ''/'') k" using u by (simp add: under_def Let_def)
  then obtain r where k: "k = ?D @ CHR ''/'' # r" by (auto simp add: prefix_def)
  have "split_sep k = ([] # ps @ [b]) @ split_sep r"
    unfolding k split_sep_append_sep using split_sep_render [OF vs] by simp
  then have c: "components k = ps @ b # filter (\<lambda>x. x \<noteq> []) (split_sep r)"
    using v by (auto simp add: components_def valid_comp_def filter_id_conv)
  have "filter (\<lambda>x. x \<noteq> []) (split_sep r) \<noteq> []"
  proof
    assume "filter (\<lambda>x. x \<noteq> []) (split_sep r) = []"
    with c have "components k = ps @ [b]" by simp
    with n have "k = ?D" by (simp add: is_normal_def)
    with k show False by simp
  qed
  with c show ?thesis by blast
qed

lemma upload_file_under:
  assumes v: "\<forall>c \<in> set (ps @ [b]). valid_comp c"
    and n: "is_normal k" and u: "under (render (ps @ [b])) k"
  shows "upload_file (render (ps @ [b])) (dirname k, basename k) w
           = create_blob_from_path (container_name (info w)) (stored_name ps k) k w"
    and "prefix (b @ ''/'') (stored_name ps k)"
    and "path_join (render ps) (stored_name ps k) = k"
    and "isabs k"
proof -
  obtain rest where rest: "rest \<noteq> []" "components k = ps @ b # rest"
    using under_components [OF v n u] by blast
  note nv = is_normal_valid [OF n]
  have vk: "\<forall>c \<in> set (ps @ b # rest). valid_comp c" using nv(1) rest(2) by simp
  have k: "k = render (ps @ b # rest)" using nv(2) rest(2) by simp
  obtain cs f where cf: "ps @ b # rest = cs @ [f]" by (metis append_is_Nil_conv list.distinct(1) rev_exhaust)
  have vcs: "\<forall>c \<in> set cs. valid_comp c" and vf: "valid_comp f"
    using vk unfolding cf by simp_all
  have vps: "\<forall>c \<in> set ps. valid_comp c" and vb: "valid_comp b" using v by simp_all
  have dn: "dirname k = render cs" unfolding k cf using vcs vf by (rule dirname_render)
  have bn: "basename k = f" unfolding k cf using vf by (rule basename_render)
  have "path_join (abspath (cwd w) (dirname k)) (basename k) = path_join (render cs) f"
    by (simp add: dn bn abspath_render [OF vcs])
  also have "\<dots> = render (cs @ [f])"
    using vcs vf by (rule path_join_component)
  also have "\<dots> = k"
    by (simp add: k cf)
  finally have fp: "path_join (abspath (cwd w) (dirname k)) (basename k) = k" .
  have dd: "dirname (render (ps @ [b])) = render ps" using vps vb by (rule dirname_render)
  have "relpath (cwd w) (render (ps @ (b # rest))) (render ps) = Inr (join_sep (b # rest))"
    using vk by (intro relpath_render) simp_all
  then have rp: "relpath (cwd w) k (dirname (render (ps @ [b]))) = Inr (join_sep (b # rest))"
    unfolding dd k by simp
  have sn: "stored_name ps k = join_sep (b # rest)"
    by (simp add: stored_name_def rest(2))
  show "upload_file (render (ps @ [b])) (dirname k, basename k) w
           = create_blob_from_path (container_name (info w)) (stored_name ps k) k w"
    by (simp add: upload_file_def fp rp sn)
  show "prefix (b @ ''/'') (stored_name ps k)"
    using rest(1) unfolding sn by (cases rest) (simp_all add: join_sep_Cons)
  have "path_join (render ps) (join_sep (b # rest)) = render (ps @ b # rest)"
    using vps vb by (rule path_join_relative)
  then show "path_join (render ps) (stored_name ps k) = k"
    by (simp add: sn k [symmetric])
  show "isabs k" unfolding k by (simp add: isabs_def render_def)
qed

lemma map_of_fold_update_other:
  "n \<notin> f ` set ks \<Longrightarrow>
   map_of (fold (\<lambda>k. AList.update (f k) (g k)) ks bl) n = map_of bl n"
  by (induction ks arbitrary: bl) (simp_all add: update_conv')

lemma map_of_fold_update_same:
  "inj_on f (set ks) \<Longrightarrow> k \<in> set ks \<Longrightarrow>
   map_of (fold (\<lambda>k. AList.update (f k) (g k)) ks bl) (f k) = Some (g k)"
proof (induction ks arbitrary: bl)
  case Nil
  then show ?case by simp
next
  case (Cons x xs)
  show ?case
  proof (cases "k \<in> set xs")
    case True
    with Cons show ?thesis by simp
  next
    case False
    with Cons.prems have kx: "k = x" by simp
    have "f k \<notin> f ` set xs"
    proof
      assume "f k \<in> f ` set xs"
      then obtain y where "y \<in> set xs" "f k = f y" by auto
      with Cons.prems(1) kx have "k = y" by (auto simp add: inj_on_def)
      with \<open>y \<in> set xs\<close> False show False by simp
    qed
    then show ?thesis by (simp add: map_of_fold_update_other kx update_conv')
  qed
qed

lemma keys_fold_update:
  "fst ` set (fold (\<lambda>k. AList.update (f k) (g k)) ks bl) = fst ` set bl \<union> f ` set ks"
  by (induction ks arbitrary: bl) (auto simp add: dom_update)

lemma distinct_fold_update:
  "distinct (map fst bl) \<Longrightarrow> distinct (map fst (fold (\<lambda>k. AList.update (f k) (g k)) ks bl))"
  by (induction ks arbitrary: bl) (simp_all add: distinct_update)

lemma length_fold_update:
  "length (fold (\<lambda>k. AList.update (f k) (g k)) ks bl) \<le> length bl + length ks"
proof (induction ks arbitrary: bl)
  case Nil
  then show ?case by simp
next
  case (Cons k ks)
  have "length (AList.update (f k) (g k) bl) \<le> Suc (length bl)"
    by (induction bl) auto
  with Cons [of "AList.update (f k) (g k) bl"] show ?case by simp
qed


lemma upload_files_under:
  assumes "\<forall>c \<in> set (ps @ [b]). valid_comp c"
    and "\<forall>k \<in> set ks. is_normal k \<and> under (render (ps @ [b])) k \<and> map_of (files w) k \<noteq> None"
    and "container w = Present" and "\<forall>n. put_error w n = None"
  shows "upload_files (render (ps @ [b])) (map (\<lambda>p. (dirname p, basename p)) ks) w
           = Ok (w\<lparr>blobs := fold (\<lambda>k. AList.update (stored_name ps k) (the (map_of (files w) k)))
                               ks (blobs w),
                   trace := trace w @ map (\<lambda>k. CreateBlobFromPath (container_name (info w))
                                                  (stored_name ps k) k) ks\<rparr>)"
  using assms(2-)
proof (induction ks arbitrary: w)
  case Nil
  then show ?case by simp
next
  case (Cons k ks)
  from Cons.prems(1) have n: "is_normal k" and u: "under (render (ps @ [b])) k"
    and "map_of (files w) k \<noteq> None" by simp_all
  then obtain c where c: "map_of (files w) k = Some c" by auto
  let ?w1 = "w\<lparr>blobs := AList.update (stored_name ps k) c (blobs w),
                trace := trace w @ [CreateBlobFromPath (container_name (info w))
                                      (stored_name ps k) k]\<rparr>"
  note uf = upload_file_under [OF assms(1) n u]
  have lp: "local_path w k = k" using uf(4) by (simp add: local_path_def)
  have one: "upload_file (render (ps @ [b])) (dirname k, basename k) w = Ok ?w1"
    unfolding uf(1) using Cons.prems(2,3)
    by (simp add: create_blob_from_path_def lp c emit_def Let_def)
  have "upload_files (render (ps @ [b])) (map (\<lambda>p. (dirname p, basename p)) ks) ?w1
           = Ok (?w1\<lparr>blobs := fold (\<lambda>k. AList.update (stored_name ps k) (the (map_of (files ?w1) k)))
                               ks (blobs ?w1),
                   trace := trace ?w1 @ map (\<lambda>k. CreateBlobFromPath (container_name (info ?w1))
                                                  (stored_name ps k) k) ks\<rparr>)"
    using Cons.prems by (intro Cons.IH) simp_all
  then show ?case by (simp add: one c)
qed

lemma download_blobs_ok:
  "container w = Present \<Longrightarrow> set ns \<subseteq> fst ` set (blobs w) \<Longrightarrow>
   download_blobs parent ns w
     = Ok (w\<lparr>files := fold (\<lambda>n. AList.update (local_path w (path_join parent n))
                                  (the (map_of (blobs w) n))) ns (files w),
             trace := trace w @ map (\<lambda>n. GetBlobToPath (container_name (info w)) n
                                            (path_join parent n)) ns\<rparr>)"
proof (induction ns arbitrary: w)
  case Nil
  then show ?case by simp
next
  case (Cons n ns)
  from Cons.prems(2) have "map_of (blobs w) n \<noteq> None" by (simp add: map_of_eq_None_iff)
  then obtain c where c: "map_of (blobs w) n = Some c" by auto
  let ?w1 = "w\<lparr>files := AList.update (local_path w (path_join parent n)) c (files w),
                trace := trace w @ [GetBlobToPath (container_name (info w)) n
                                      (path_join parent n)]\<rparr>"
  have one: "get_blob_to_path (container_name (info w)) n (path_join parent n) w = Ok ?w1"
    using Cons.prems(1) by (simp add: get_blob_to_path_def c emit_def Let_def)
  have lp: "local_path ?w1 = local_path w" by (simp add: local_path_def fun_eq_iff)
  have "download_blobs parent ns ?w1
     = Ok (?w1\<lparr>files := fold (\<lambda>n. AList.update (local_path ?w1 (path_join parent n))
                                  (the (map_of (blobs ?w1) n))) ns (files ?w1),
             trace := trace ?w1 @ map (\<lambda>n. GetBlobToPath (container_name (info ?w1)) n
                                            (path_join parent n)) ns\<rparr>)"
    using Cons.prems by (intro Cons.IH) simp_all
  then show ?case by (simp add: one c lp)
qed

lemma stage_then_fetch:
  assumes D: "abspath (cwd w) (normpath dir_path) = render (ps @ [b])"
    and v: "\<forall>c \<in> set (ps @ [b]). valid_comp c"
    and nk: "\<forall>k \<in> fst ` set (files w). is_normal k"
    and pres: "container w = Present"
    and url: "container_url w \<noteq> None" and tok: "container_token w \<noteq> None"
    and new: "uploaded_dirs w b = None"
    and acc: "\<forall>n. put_error w n = None"
  shows "\<exists>w1 w2. upload_dir dir_path w = Ok w1
          \<and> download_dir dir_path ignore_not_exist (w1\<lparr>files := []\<rparr>) = Ok w2
          \<and> blobs w1 = AList.update ''uploaded_dirs.dat''
                 (pickle_dumps w ((uploaded_dirs w)(b \<mapsto> render ps)))
                 (fold (\<lambda>k. AList.update (stored_name ps k) (the (map_of (files w) k)))
                    (filter (under (render (ps @ [b]))) (map fst (files w))) (blobs w))
          \<and> files w2 = fold (\<lambda>n. AList.update (local_path w (path_join (render ps) n))
                                    (the (map_of (blobs w1) n)))
                          (take 50000 (filter (prefix (b @ ''/'')) (map fst (blobs w1)))) []"
proof -
  let ?D = "render (ps @ [b])"
  let ?K = "filter (under ?D) (map fst (files w))"
  let ?name = "container_name (info w)"
  have vps: "\<forall>c \<in> set ps. valid_comp c" and vb: "valid_comp b" using v by simp_all
  have bn: "basename ?D = b" using vb by (rule basename_render)
  have dn: "dirname ?D = render ps" using vps vb by (rule dirname_render)
  obtain u t where o: "container_url w = Some u" "container_token w = Some t"
    using url tok by auto
  let ?w1 = "w\<lparr>blobs := fold (\<lambda>k. AList.update (stored_name ps k) (the (map_of (files w) k)))
                            ?K (blobs w),
                trace := trace w @ map (\<lambda>k. CreateBlobFromPath ?name (stored_name ps k) k) ?K\<rparr>"
  have K: "\<forall>k \<in> set ?K. is_normal k \<and> under ?D k \<and> map_of (files w) k \<noteq> None"
    using nk by (auto simp add: map_of_eq_None_iff)
  have up: "upload_files ?D (os_walk ?D w) w = Ok ?w1"
    unfolding os_walk_def using v K pres acc by (rule upload_files_under)
  let ?w2 = "?w1\<lparr>uploaded_dirs := (uploaded_dirs ?w1)(b \<mapsto> render ps)\<rparr>"
  let ?w3 = "?w2\<lparr>files := AList.delete (local_path ?w2 ''uploaded_dirs.dat'') (files ?w2),
                   blobs := AList.update ''uploaded_dirs.dat'' (pickle_dumps ?w2 (uploaded_dirs ?w2))
                              (blobs ?w2),
                   trace := trace ?w2 @ [CreateBlobFromPath (container_name (info ?w2))
                                         ''uploaded_dirs.dat'' ''uploaded_dirs.dat'']\<rparr>"
  have per: "persist_uploaded_dirs ?w2 = Ok ?w3"
    using pres acc by (intro persist_uploaded_dirs_ok) simp_all
  have run: "upload_dir dir_path w = persist_uploaded_dirs ?w2"
    using new by (simp add: upload_dir_def D bn dn o up Let_def)
  have stage: "upload_dir dir_path w = Ok ?w3"
    unfolding run by (rule per)
  let ?v = "?w3\<lparr>files := []\<rparr>"
  let ?ns = "take 50000 (filter (prefix (b @ ''/'')) (map fst (blobs ?v)))"
  let ?v1 = "?v\<lparr>trace := trace ?v @ [ListBlobs ?name (b @ ''/'') 50000]\<rparr>"
  have list: "list_blobs (container_name (info ?v)) (b @ ''/'') 50000 ?v = (Inr ?ns, ?v1)"
    using pres by (simp add: list_blobs_def emit_def Let_def)
  have sub: "set ?ns \<subseteq> fst ` set (blobs ?v1)"
    by (auto dest!: in_set_takeD)
  have dl: "download_blobs (render ps) ?ns ?v1
     = Ok (?v1\<lparr>files := fold (\<lambda>n. AList.update (local_path ?v1 (path_join (render ps) n))
                                  (the (map_of (blobs ?v1) n))) ?ns (files ?v1),
             trace := trace ?v1 @ map (\<lambda>n. GetBlobToPath (container_name (info ?v1)) n
                                            (path_join (render ps) n)) ?ns\<rparr>)"
    using pres sub by (intro download_blobs_ok) simp_all
  have lp: "local_path ?v1 = local_path w" by (simp add: local_path_def fun_eq_iff)
  have "download_dir dir_path ignore_not_exist ?v
          = (case list_blobs (container_name (info ?v)) (b @ ''/'') 50000 ?v of
               (Inl e, w1) \<Rightarrow> Raise e w1
             | (Inr blob_list, w1) \<Rightarrow> download_blobs (render ps) blob_list w1)"
    by (simp add: download_dir_def D bn o Let_def)
  then have run2: "download_dir dir_path ignore_not_exist ?v = download_blobs (render ps) ?ns ?v1"
    unfolding list by simp
  let ?v2 = "?v1\<lparr>files := fold (\<lambda>n. AList.update (local_path w (path_join (render ps) n))
                                  (the (map_of (blobs ?v1) n))) ?ns (files ?v1),
             trace := trace ?v1 @ map (\<lambda>n. GetBlobToPath (container_name (info ?v1)) n
                                            (path_join (render ps) n)) ?ns\<rparr>"
  have fetch: "download_dir dir_path ignore_not_exist ?v = Ok ?v2"
    unfolding run2 dl lp ..
  show ?thesis
  proof (intro exI conjI)
    show "upload_dir dir_path w = Ok ?w3" by (rule stage)
    show "download_dir dir_path ignore_not_exist (?w3\<lparr>files := []\<rparr>) = Ok ?v2" by (rule fetch)
  qed simp_all
qed

text \<open>
  C6, as the code has it. Let the directory be a normal path other than the root, with
  parent components \<open>ps\<close> and base name \<open>b\<close>, holding at most 50000 files; let
  the session be open on a present container that stores what it is given and has no
  blob under \<open>b/\<close> yet, and let \<open>b\<close> be new to the ledger. Then \<open>_upload_dir\<close>
  returns, \<open>_download_dir\<close> on a machine without files returns, and the files it
  leaves are exactly the files of the directory, each at its path with its content.
\<close>

theorem stage_fetch_round_trip:
  assumes D: "abspath (cwd w) (normpath dir_path) = render (ps @ [b])"
    and v: "\<forall>c \<in> set (ps @ [b]). valid_comp c"
    and nk: "\<forall>k \<in> fst ` set (files w). is_normal k"
    and pres: "container w = Present"
    and url: "container_url w \<noteq> None" and tok: "container_token w \<noteq> None"
    and new: "uploaded_dirs w b = None"
    and acc: "\<forall>n. put_error w n = None"
    and fresh: "\<forall>n \<in> fst ` set (blobs w). \<not> prefix (b @ ''/'') n"
    and db: "distinct (map fst (blobs w))"
    and few: "length (os_walk (render (ps @ [b])) w) \<le> 50000"
  shows "\<exists>w1 w2. upload_dir dir_path w = Ok w1
          \<and> download_dir dir_path ignore_not_exist (w1\<lparr>files := []\<rparr>) = Ok w2
          \<and> (\<forall>q. map_of (files w2) q
                 = (if under (render (ps @ [b])) q then map_of (files w) q else None))"
proof -
  let ?D = "render (ps @ [b])"
  let ?K = "filter (under ?D) (map fst (files w))"
  let ?f = "stored_name ps"
  let ?g = "\<lambda>k. the (map_of (files w) k)"
  let ?BL = "fold (\<lambda>k. AList.update (?f k) (?g k)) ?K (blobs w)"
  let ?pre = "b @ ''/''"
  obtain w1 w2 where stage: "upload_dir dir_path w = Ok w1"
    and fetch: "download_dir dir_path ignore_not_exist (w1\<lparr>files := []\<rparr>) = Ok w2"
    and B: "blobs w1 = AList.update ''uploaded_dirs.dat''
                 (pickle_dumps w ((uploaded_dirs w)(b \<mapsto> render ps))) ?BL"
    and F: "files w2 = fold (\<lambda>n. AList.update (local_path w (path_join (render ps) n))
                                    (the (map_of (blobs w1) n)))
                          (take 50000 (filter (prefix ?pre) (map fst (blobs w1)))) []"
    using stage_then_fetch [OF D v nk pres url tok new acc] by blast
  let ?P = "filter (prefix ?pre) (map fst (blobs w1))"
  let ?Fn = "\<lambda>n. local_path w (path_join (render ps) n)"
  let ?G = "\<lambda>n. the (map_of (blobs w1) n)"
  have K: "is_normal k \<and> under ?D k \<and> map_of (files w) k \<noteq> None" if "k \<in> set ?K" for k
    using that nk by (auto simp add: map_of_eq_None_iff)
  have pf: "prefix ?pre (?f k)" and joined: "?Fn (?f k) = k" if "k \<in> set ?K" for k
  proof -
    from K [OF that] have n: "is_normal k" and u: "under ?D k" by simp_all
    show "prefix ?pre (?f k)" using v n u by (rule upload_file_under(2))
    show "?Fn (?f k) = k"
      using upload_file_under(3) [OF v n u] upload_file_under(4) [OF v n u]
      by (simp add: local_path_def)
  qed
  have inj: "inj_on ?f (set ?K)"
    by (rule inj_onI) (metis joined)
  have setP: "set ?P = ?f ` set ?K"
  proof -
    have "fst ` set (blobs w1) = {''uploaded_dirs.dat''} \<union> (fst ` set (blobs w) \<union> ?f ` set ?K)"
      unfolding B dom_update keys_fold_update ..
    then have "set ?P = {n \<in> {''uploaded_dirs.dat''} \<union> (fst ` set (blobs w) \<union> ?f ` set ?K).
                        prefix ?pre n}"
      by auto
    also have "\<dots> = ?f ` set ?K"
      using fresh ledger_blob_not_under [of b] pf by auto
    finally show ?thesis .
  qed
  have "distinct (map fst (blobs w1))"
    unfolding B using db by (intro distinct_update distinct_fold_update)
  then have dP: "distinct ?P" by (rule distinct_filter)
  have "length ?P = card (set ?P)" using dP by (rule distinct_card [symmetric])
  also have "\<dots> \<le> card (set ?K)" unfolding setP by (intro card_image_le) simp
  also have "\<dots> \<le> length ?K" by (rule card_length)
  also have "\<dots> \<le> 50000" using few by (simp add: os_walk_def)
  finally have all: "take 50000 ?P = ?P" by simp
  have F': "files w2 = fold (\<lambda>n. AList.update (?Fn n) (?G n)) ?P []"
    unfolding F all ..
  have injF: "inj_on ?Fn (set ?P)"
    unfolding setP
  proof (rule inj_onI)
    fix x y
    assume "x \<in> ?f ` set ?K" and "y \<in> ?f ` set ?K" and e: "?Fn x = ?Fn y"
    then obtain k k' where k: "k \<in> set ?K" "x = ?f k" and k': "k' \<in> set ?K" "y = ?f k'"
      by blast
    from e have "k = k'"
      unfolding k(2) k'(2) joined [OF k(1)] joined [OF k'(1)] .
    then show "x = y" using k(2) k'(2) by simp
  qed
  have img: "?Fn ` set ?P = set ?K"
    unfolding setP using joined by force
  have "map_of (files w2) q = (if under ?D q then map_of (files w) q else None)" for q
  proof (cases "q \<in> set ?K")
    case True
    from K [OF True] obtain c where c: "map_of (files w) q = Some c" and u: "under ?D q" by auto
    have mem: "?f q \<in> set ?P" unfolding setP using True by simp
    have nl: "?f q \<noteq> ''uploaded_dirs.dat''"
      using pf [OF True] ledger_blob_not_under [of b] by auto
    have "map_of (files w2) (?Fn (?f q)) = Some (?G (?f q))"
      unfolding F' using injF mem by (rule map_of_fold_update_same)
    moreover have "map_of (blobs w1) (?f q) = map_of ?BL (?f q)"
      unfolding B using nl by (simp add: update_conv')
    moreover have "map_of ?BL (?f q) = Some (?g q)"
      using inj True by (rule map_of_fold_update_same)
    ultimately show ?thesis
      using u c by (simp add: joined [OF True])
  next
    case False
    then have "q \<notin> ?Fn ` set ?P" unfolding img .
    then have "map_of (files w2) q = map_of [] q"
      unfolding F' by (rule map_of_fold_update_other)
    moreover have "map_of (files w) q = None" if "under ?D q"
      using False that by (auto simp add: map_of_eq_None_iff)
    ultimately show ?thesis by simp
  qed
  with stage fetch show ?thesis by blast
qed

theorem stage_fetch_round_trip_witness:
  "abspath (cwd example_world) (normpath ''/data/case1'') = render ([''data''] @ [''case1''])
   \<and> valid_comp ''data'' \<and> valid_comp ''case1''
   \<and> files example_world = [(''/data/case1/a.txt'', ''A''), (''/data/case1/sub/b.txt'', ''B'')]
   \<and> is_normal ''/data/case1/a.txt'' \<and> is_normal ''/data/case1/sub/b.txt''
   \<and> container example_world = Present
   \<and> container_url example_world \<noteq> None \<and> container_token example_world \<noteq> None
   \<and> uploaded_dirs example_world ''case1'' = None
   \<and> (\<forall>n. put_error example_world n = None)
   \<and> blobs example_world = []
   \<and> length (os_walk (render ([''data''] @ [''case1''])) example_world) \<le> 50000
   \<and> (\<exists>w1 w2. upload_dir ''/data/case1'' example_world = Ok w1
         \<and> download_dir ''/data/case1'' True (w1\<lparr>files := []\<rparr>) = Ok w2
         \<and> map_of (files w2) ''/data/case1/a.txt'' = Some ''A''
         \<and> map_of (files w2) ''/data/case1/sub/b.txt'' = Some ''B''
         \<and> map_of (files w2) ''/data/case2/c.txt'' = None)"
proof -
  have i: "cwd example_world = ''/home/user''"
      "files example_world = [(''/data/case1/a.txt'', ''A''), (''/data/case1/sub/b.txt'', ''B'')]"
      "container example_world = Present" "blobs example_world = []"
      "uploaded_dirs example_world = Map.empty"
      "container_url example_world = Some ''https://acct/mission?sig''"
      "container_token example_world = Some ''sig''"
      "put_error example_world = (\<lambda>_. None)"
    by (simp_all add: example_world_def)
  have D0: "abspath ''/home/user'' (normpath ''/data/case1'') = render ([''data''] @ [''case1''])"
    by code_simp
  have D: "abspath (cwd example_world) (normpath ''/data/case1'') = render ([''data''] @ [''case1''])"
    unfolding i by (rule D0)
  have v: "\<forall>c \<in> set ([''data''] @ [''case1'']). valid_comp c"
    by (simp add: valid_comp_def)
  have n1: "is_normal ''/data/case1/a.txt''" and n2: "is_normal ''/data/case1/sub/b.txt''"
    by code_simp+
  have nk: "\<forall>k \<in> fst ` set (files example_world). is_normal k"
    by (simp add: i n1 n2)
  have pres: "container example_world = Present"
    and url: "container_url example_world \<noteq> None" and tok: "container_token example_world \<noteq> None"
    and new: "uploaded_dirs example_world ''case1'' = None"
    and acc: "\<forall>n. put_error example_world n = None"
    and fresh: "\<forall>n \<in> fst ` set (blobs example_world). \<not> prefix (''case1'' @ ''/'') n"
    and db: "distinct (map fst (blobs example_world))"
    by (simp_all add: i)
  have few: "length (os_walk (render ([''data''] @ [''case1''])) example_world) \<le> 50000"
    by (simp add: os_walk_def i)
  have u: "under (render ([''data''] @ [''case1''])) ''/data/case1/a.txt''"
      "under (render ([''data''] @ [''case1''])) ''/data/case1/sub/b.txt''"
      "\<not> under (render ([''data''] @ [''case1''])) ''/data/case2/c.txt''"
    by code_simp+
  from stage_fetch_round_trip [OF D v nk pres url tok new acc fresh db few, of True]
  obtain w1 w2 where "upload_dir ''/data/case1'' example_world = Ok w1"
    and "download_dir ''/data/case1'' True (w1\<lparr>files := []\<rparr>) = Ok w2"
    and q: "\<And>q. map_of (files w2) q
                 = (if under (render ([''data''] @ [''case1''])) q
                    then map_of (files example_world) q else None)"
    by blast
  moreover have "map_of (files w2) ''/data/case1/a.txt'' = Some ''A''"
    unfolding q using u(1) by (simp add: i)
  moreover have "map_of (files w2) ''/data/case1/sub/b.txt'' = Some ''B''"
    unfolding q using u(2) by (simp add: i)
  moreover have "map_of (files w2) ''/data/case2/c.txt'' = None"
    unfolding q using u(3) by simp
  ultimately have "\<exists>w1 w2. upload_dir ''/data/case1'' example_world = Ok w1
         \<and> download_dir ''/data/case1'' True (w1\<lparr>files := []\<rparr>) = Ok w2
         \<and> map_of (files w2) ''/data/case1/a.txt'' = Some ''A''
         \<and> map_of (files w2) ''/data/case1/sub/b.txt'' = Some ''B''
         \<and> map_of (files w2) ''/data/case2/c.txt'' = None"
    by blast
  with D v n1 n2 pres url tok new acc few show ?thesis
    by (simp add: i)
qed

text \<open>
  A directory of 50001 files: staging and fetching both return, and the files fetched
  are at most 50000, the bound of the listing.
\<close>

lemma many_files_key:
  "''/data/case1/'' @ replicate (Suc i) CHR ''x''
     = render ([''data''] @ [''case1''] @ [replicate (Suc i) CHR ''x''])"
  by (simp add: render_def)

lemma many_files_normal: "\<forall>k \<in> fst ` set (many_files n). is_normal k"
proof
  fix k assume "k \<in> fst ` set (many_files n)"
  then obtain i where k: "k = ''/data/case1/'' @ replicate (Suc i) CHR ''x''"
    by (auto simp add: many_files_def)
  have "valid_comp (replicate (Suc i) CHR ''x'')"
    by (cases i) (simp_all add: valid_comp_def)
  then have "\<forall>c \<in> set ([''data''] @ [''case1''] @ [replicate (Suc i) CHR ''x'']). valid_comp c"
    by (simp add: valid_comp_def)
  then show "is_normal k"
    unfolding k many_files_key by (rule is_normal_render)
qed

lemma many_files_card: "card (fst ` set (many_files n)) = n"
proof -
  have inj: "inj_on (\<lambda>i. ''/data/case1/'' @ replicate (Suc i) CHR ''x'') {0..<n}"
  proof (rule inj_onI)
    fix i j :: nat
    assume "''/data/case1/'' @ replicate (Suc i) CHR ''x''
              = ''/data/case1/'' @ replicate (Suc j) CHR ''x''"
    then have "length (replicate (Suc i) CHR ''x'') = length (replicate (Suc j) CHR ''x'')"
      by simp
    then show "i = j" by simp
  qed
  have "fst ` set (many_files n) = (\<lambda>i. ''/data/case1/'' @ replicate (Suc i) CHR ''x'') ` {0..<n}"
    by (auto simp add: many_files_def image_iff)
  then show ?thesis using inj by (simp add: card_image)
qed

theorem round_trip_beyond_listing_counterexample:
  "\<exists>w1 w2. upload_dir ''/data/case1'' (example_world\<lparr>files := many_files 50001\<rparr>) = Ok w1
     \<and> download_dir ''/data/case1'' True (w1\<lparr>files := []\<rparr>) = Ok w2
     \<and> card (dom (map_of (many_files 50001))) = 50001
     \<and> card (dom (map_of (files w2))) \<le> 50000
     \<and> map_of (files w2) \<noteq> map_of (many_files 50001)"
proof -
  let ?W = "example_world\<lparr>files := many_files 50001\<rparr>"
  have i: "cwd ?W = ''/home/user''" "files ?W = many_files 50001"
      "container ?W = Present" "uploaded_dirs ?W = Map.empty"
      "container_url ?W = Some ''https://acct/mission?sig''"
      "container_token ?W = Some ''sig''"
      "put_error ?W = (\<lambda>_. None)"
    by (simp_all add: example_world_def)
  have D0: "abspath ''/home/user'' (normpath ''/data/case1'') = render ([''data''] @ [''case1''])"
    by code_simp
  have D: "abspath (cwd ?W) (normpath ''/data/case1'') = render ([''data''] @ [''case1''])"
    unfolding i by (rule D0)
  have v: "\<forall>c \<in> set ([''data''] @ [''case1'']). valid_comp c"
    by (simp add: valid_comp_def)
  have nk: "\<forall>k \<in> fst ` set (files ?W). is_normal k"
    unfolding i by (rule many_files_normal)
  have pres: "container ?W = Present"
    and url: "container_url ?W \<noteq> None" and tok: "container_token ?W \<noteq> None"
    and new: "uploaded_dirs ?W ''case1'' = None"
    and acc: "\<forall>n. put_error ?W n = None"
    by (simp_all add: i)
  from stage_then_fetch [OF D v nk pres url tok new acc, of True]
  obtain w1 w2 where s: "upload_dir ''/data/case1'' ?W = Ok w1"
    and f: "download_dir ''/data/case1'' True (w1\<lparr>files := []\<rparr>) = Ok w2"
    and F: "files w2 = fold (\<lambda>n. AList.update (local_path ?W (path_join (render [''data'']) n))
                                    (the (map_of (blobs w1) n)))
                          (take 50000 (filter (prefix (''case1'' @ ''/'')) (map fst (blobs w1)))) []"
    by blast
  have "length (files w2)
          \<le> length ([] :: (string \<times> string) list)
             + length (take 50000 (filter (prefix (''case1'' @ ''/'')) (map fst (blobs w1))))"
    unfolding F by (rule length_fold_update)
  then have len: "length (files w2) \<le> 50000" by simp
  have "card (dom (map_of (files w2))) = card (fst ` set (files w2))"
    by (simp add: dom_map_of_conv_image_fst)
  also have "\<dots> \<le> length (files w2)"
    by (metis card_length length_map set_map)
  finally have small: "card (dom (map_of (files w2))) \<le> 50000" using len by simp
  have big: "card (dom (map_of (many_files 50001))) = 50001"
    by (simp add: dom_map_of_conv_image_fst many_files_card)
  from small big have "map_of (files w2) \<noteq> map_of (many_files 50001)"
    by auto
  with s f small big show ?thesis by blast
qed

end
